theory Spec2Isabelle
  imports Complex_Main
begin

section \<open>ECG pipeline of the Doctorino backend\<close>

text \<open>
  The development embeds the ECG part of the backend:
  \<^verbatim>\<open>hierarchical_kalman_filter\<close>, \<^verbatim>\<open>process_ecg_data\<close>, \<^verbatim>\<open>load_ecg_model\<close>,
  \<^verbatim>\<open>predict_segment\<close> and \<^verbatim>\<open>calculate_final_prediction\<close> of
  \<^verbatim>\<open>backend/ecg/ecg_classification_api.py\<close>, and the segment loop of
  \<^verbatim>\<open>upload_ecg_files\<close> in \<^verbatim>\<open>backend/routers/files.py\<close>.

  Samples, noise parameters and probabilities are Python floats in the source, and
  finite values of the type \<^typ>\<open>real\<close> here. The Kalman filter is embedded twice: once
  with exact arithmetic, and once with every operation rounded to the nearest IEEE 754
  double, for the statements that depend on rounding. In both, a division by zero raises
  \<^verbatim>\<open>ZeroDivisionError\<close>, as a division of Python floats does. Infinities and NaN are
  not values of the embedding: where an operation of the code overflows, the rounded
  embedding stops with \<open>NonFinite\<close>. The sums and means of probabilities are computed
  exactly; the confidence is computed and rounded in doubles.
\<close>

subsection \<open>Exceptions\<close>

text \<open>
  The Python exceptions that the embedded code can raise. \<open>RuntimeError\<close> stands for
  any exception raised by an external library (torch, matplotlib); \<open>HTTPException\<close>
  carries its status code. \<open>NonFinite\<close> is no exception: it marks that an operation on
  doubles gave an infinity or a NaN, with which the code goes on computing and the
  embedding does not.
\<close>

datatype error =
    IndexError
  | ZeroDivisionError
  | ValueError
  | KeyError
  | RuntimeError
  | HTTPException nat
  | NonFinite

subsection \<open>Arithmetic on IEEE 754 doubles\<close>

text \<open>Rounding to the nearest integer, a tie going to the even one.\<close>

definition round_half_even :: "real \<Rightarrow> int" where
  "round_half_even y =
     (let f = \<lfloor>y\<rfloor>; d = y - of_int f
      in if d < 1 / 2 then f else if 1 / 2 < d then f + 1 else if even f then f else f + 1)"

text \<open>
  The binary exponent of a non-zero real as a double sees it: that of its binade, and
  \<open>-1022\<close> for the subnormal range. The doubles of that binade are the multiples of
  \<open>double_ulp\<close>, 52 binary places below the exponent.
\<close>

definition double_exponent :: "real \<Rightarrow> int" where
  "double_exponent x = max \<lfloor>log 2 \<bar>x\<bar>\<rfloor> (- 1022)"

definition double_ulp :: "real \<Rightarrow> real" where
  "double_ulp x = 2 powi (double_exponent x - 52)"

text \<open>
  Rounding to nearest, ties to even, with an unbounded exponent range; binary64
  arithmetic returns an infinity exactly when the result so rounded is beyond the largest
  double.
\<close>

definition round_double :: "real \<Rightarrow> real" where
  "round_double x =
     (if x = 0 then 0 else of_int (round_half_even (x / double_ulp x)) * double_ulp x)"

definition max_double :: real where
  "max_double = (2 ^ 53 - 1) * 2 ^ 971"

text \<open>The result of an operation on doubles whose exact value is \<open>v\<close>.\<close>

definition double_result :: "real \<Rightarrow> error + real" where
  "double_result v =
     (if max_double < \<bar>round_double v\<bar> then Inl NonFinite else Inr (round_double v))"

definition and_then :: "error + 'a \<Rightarrow> ('a \<Rightarrow> error + 'b) \<Rightarrow> error + 'b" where
  "and_then r f = (case r of Inl e \<Rightarrow> Inl e | Inr v \<Rightarrow> f v)"

subsection \<open>The cascaded Kalman filter\<close>

text \<open>
  One iteration of a filter loop (the body of \<^verbatim>\<open>for i in range(n)\<close>). The state before
  the iteration is the pair \<open>(x_hat, p)\<close>, \<open>z\<close> is the sample \<^verbatim>\<open>signal[i]\<close>. The result is
  the triple \<open>(K, x_hat, p)\<close> of the gain computed in this iteration and the new state;
  \<^verbatim>\<open>p_minus / (p_minus + R)\<close> is a division of Python floats and raises when the
  denominator is zero.
\<close>

definition kalman_update :: "real \<Rightarrow> real \<Rightarrow> real \<times> real \<Rightarrow> real \<Rightarrow> error + (real \<times> real \<times> real)" where
  "kalman_update Q R s z =
     (let x_hat_minus = fst s;
          p_minus = snd s + Q
      in if p_minus + R = 0 then Inl ZeroDivisionError
         else
           (let K = p_minus / (p_minus + R);
                x_hat = x_hat_minus + K * (z - x_hat_minus);
                p = (1 - K) * p_minus
            in Inr (K, x_hat, p)))"

definition gain_of :: "real \<times> real \<times> real \<Rightarrow> real" where
  "gain_of it = fst it"

definition estimate_of :: "real \<times> real \<times> real \<Rightarrow> real" where
  "estimate_of it = fst (snd it)"

definition covariance_of :: "real \<times> real \<times> real \<Rightarrow> real" where
  "covariance_of it = snd (snd it)"

text \<open>
  The loop over the samples. It returns one triple per iteration, in order; the filtered
  signal of the stage is the list of the estimates (\<^verbatim>\<open>filtered_signal[i] = x_hat\<close>).
\<close>

fun kalman_loop :: "real \<Rightarrow> real \<Rightarrow> real \<times> real \<Rightarrow> real list \<Rightarrow> error + (real \<times> real \<times> real) list" where
  "kalman_loop Q R s [] = Inr []"
| "kalman_loop Q R s (z # zs) =
     (case kalman_update Q R s z of
        Inl e \<Rightarrow> Inl e
      | Inr it \<Rightarrow>
          (case kalman_loop Q R (estimate_of it, covariance_of it) zs of
             Inl e \<Rightarrow> Inl e
           | Inr its \<Rightarrow> Inr (it # its)))"

text \<open>
  One stage: \<^verbatim>\<open>x_hat = signal[0]\<close> raises \<^verbatim>\<open>IndexError\<close> on an empty array, \<^verbatim>\<open>p = 1.0\<close>,
  then the loop.
\<close>

definition kalman_stage_trace :: "real \<Rightarrow> real \<Rightarrow> real list \<Rightarrow> error + (real \<times> real \<times> real) list" where
  "kalman_stage_trace Q R signal =
     (case signal of
        [] \<Rightarrow> Inl IndexError
      | z0 # _ \<Rightarrow> kalman_loop Q R (z0, 1) signal)"

definition kalman_stage :: "real \<Rightarrow> real \<Rightarrow> real list \<Rightarrow> error + real list" where
  "kalman_stage Q R signal =
     (case kalman_stage_trace Q R signal of
        Inl e \<Rightarrow> Inl e
      | Inr its \<Rightarrow> Inr (map estimate_of its))"

definition hierarchical_kalman_filter :: "real list \<Rightarrow> real \<Rightarrow> real \<Rightarrow> real \<Rightarrow> real \<Rightarrow> error + real list" where
  "hierarchical_kalman_filter signal Q1 R1 Q2 R2 =
     (case kalman_stage Q1 R1 signal of
        Inl e \<Rightarrow> Inl e
      | Inr filtered_signal1 \<Rightarrow> kalman_stage Q2 R2 filtered_signal1)"

subsection \<open>The cascaded Kalman filter in double arithmetic\<close>

text \<open>
  The same iteration with each of its eight arithmetic operations rounded, in the order
  in which the code performs them: \<^verbatim>\<open>p_minus = p + Q\<close>; the denominator
  \<^verbatim>\<open>p_minus + R\<close> and the quotient \<^verbatim>\<open>K\<close>; the difference, the product and the sum of
  \<^verbatim>\<open>x_hat_minus + K * (signal[i] - x_hat_minus)\<close>; the difference and the product of
  \<^verbatim>\<open>(1 - K) * p_minus\<close>.
\<close>

definition kalman_update_double ::
  "real \<Rightarrow> real \<Rightarrow> real \<times> real \<Rightarrow> real \<Rightarrow> error + (real \<times> real \<times> real)" where
  "kalman_update_double Q R s z =
     (let x_hat_minus = fst s in
      and_then (double_result (snd s + Q)) (\<lambda>p_minus.
      and_then (double_result (p_minus + R)) (\<lambda>denominator.
      if denominator = 0 then Inl ZeroDivisionError
      else
      and_then (double_result (p_minus / denominator)) (\<lambda>K.
      and_then (double_result (z - x_hat_minus)) (\<lambda>difference.
      and_then (double_result (K * difference)) (\<lambda>correction.
      and_then (double_result (x_hat_minus + correction)) (\<lambda>x_hat.
      and_then (double_result (1 - K)) (\<lambda>one_minus_K.
      and_then (double_result (one_minus_K * p_minus)) (\<lambda>p.
      Inr (K, x_hat, p))))))))))"

text \<open>The loop, the stage and the two stages, as in the exact embedding.\<close>

fun kalman_loop_double ::
  "real \<Rightarrow> real \<Rightarrow> real \<times> real \<Rightarrow> real list \<Rightarrow> error + (real \<times> real \<times> real) list" where
  "kalman_loop_double Q R s [] = Inr []"
| "kalman_loop_double Q R s (z # zs) =
     (case kalman_update_double Q R s z of
        Inl e \<Rightarrow> Inl e
      | Inr it \<Rightarrow>
          (case kalman_loop_double Q R (estimate_of it, covariance_of it) zs of
             Inl e \<Rightarrow> Inl e
           | Inr its \<Rightarrow> Inr (it # its)))"

definition kalman_stage_trace_double ::
  "real \<Rightarrow> real \<Rightarrow> real list \<Rightarrow> error + (real \<times> real \<times> real) list" where
  "kalman_stage_trace_double Q R signal =
     (case signal of
        [] \<Rightarrow> Inl IndexError
      | z0 # _ \<Rightarrow> kalman_loop_double Q R (z0, 1) signal)"

definition kalman_stage_double :: "real \<Rightarrow> real \<Rightarrow> real list \<Rightarrow> error + real list" where
  "kalman_stage_double Q R signal =
     (case kalman_stage_trace_double Q R signal of
        Inl e \<Rightarrow> Inl e
      | Inr its \<Rightarrow> Inr (map estimate_of its))"

definition hierarchical_kalman_filter_double ::
  "real list \<Rightarrow> real \<Rightarrow> real \<Rightarrow> real \<Rightarrow> real \<Rightarrow> error + real list" where
  "hierarchical_kalman_filter_double signal Q1 R1 Q2 R2 =
     (case kalman_stage_double Q1 R1 signal of
        Inl e \<Rightarrow> Inl e
      | Inr filtered_signal1 \<Rightarrow> kalman_stage_double Q2 R2 filtered_signal1)"

subsection \<open>Settings and \<^verbatim>\<open>process_ecg_data\<close>\<close>

text \<open>
  \<^verbatim>\<open>KalmanFilterSettings\<close> of \<^verbatim>\<open>core/config.py\<close>: four floats, no validator restricts
  their sign. The defaults are \<open>Q1 = 0.001\<close>, \<open>R1 = 10.0\<close>, \<open>Q2 = 0.001\<close>, \<open>R2 = 1.0\<close>.
\<close>

record KalmanFilterSettings =
  Q1 :: real
  R1 :: real
  Q2 :: real
  R2 :: real

record Settings =
  kalman_filter :: KalmanFilterSettings
  plot_sample_size :: int

definition default_kalman_filter :: KalmanFilterSettings where
  "default_kalman_filter = \<lparr>Q1 = 1 / 1000, R1 = 10, Q2 = 1 / 1000, R2 = 1\<rparr>"

definition default_settings :: Settings where
  "default_settings = \<lparr>kalman_filter = default_kalman_filter, plot_sample_size = 1000\<rparr>"

text \<open>The slice \<^verbatim>\<open>xs[:k]\<close>; a negative \<open>k\<close> counts from the end.\<close>

definition slice_to :: "'a list \<Rightarrow> int \<Rightarrow> 'a list" where
  "slice_to xs k = (if 0 \<le> k then take (nat k) xs else take (length xs - nat (- k)) xs)"

text \<open>
  \<^verbatim>\<open>process_ecg_data\<close>. The matplotlib part (drawing the two curves, \<^verbatim>\<open>savefig\<close>, base64
  encoding) is the parameter \<open>render\<close>: it receives the two plotted slices and returns
  the encoded image or raises. The whole body is inside \<^verbatim>\<open>try ... except Exception\<close>,
  whose handler returns \<^verbatim>\<open>(None, None)\<close>; so the function has no path that raises, and
  its result is always of the form \<open>Inr _\<close>.
\<close>

definition process_ecg_data ::
  "Settings \<Rightarrow> (real list \<Rightarrow> real list \<Rightarrow> error + string) \<Rightarrow> real list
     \<Rightarrow> error + (real list option \<times> string option)" where
  "process_ecg_data settings render data =
     (let kf_settings = kalman_filter settings in
      case hierarchical_kalman_filter data (Q1 kf_settings) (R1 kf_settings)
             (Q2 kf_settings) (R2 kf_settings) of
        Inl e \<Rightarrow> Inr (None, None)
      | Inr denoised_data \<Rightarrow>
          (case render (slice_to data (plot_sample_size settings))
                  (slice_to denoised_data (plot_sample_size settings)) of
             Inl e \<Rightarrow> Inr (None, None)
           | Inr graph \<Rightarrow> Inr (Some denoised_data, Some graph)))"

subsection \<open>The classifier: \<^verbatim>\<open>load_ecg_model\<close> and \<^verbatim>\<open>predict_segment\<close>\<close>

text \<open>
  The network is opaque. A loaded model is the function that \<^verbatim>\<open>predict_segment\<close> applies
  to one segment (lines 237 to 244: moving the model to the device, building the tensor,
  the forward pass): it returns the row of logits or raises.
\<close>

type_synonym ecg_model = "real list \<Rightarrow> error + real list"

text \<open>
  What \<^verbatim>\<open>load_ecg_model\<close> depends on: the constructor call \<^verbatim>\<open>LSTM()\<close>, whether the weight
  file exists, and \<^verbatim>\<open>model.load_state_dict(torch.load(...))\<close>, which gives the model with
  the trained weights or raises. Printing and \<^verbatim>\<open>model.eval()\<close> are taken not to raise.
\<close>

record torch_env =
  new_LSTM :: "error + ecg_model"
  model_file_exists :: bool
  load_state_dict :: "ecg_model \<Rightarrow> error + ecg_model"

text \<open>
  \<^verbatim>\<open>load_ecg_model\<close> reads and writes the module-level variable \<^verbatim>\<open>model\<close>, here the state
  \<open>g\<close> (\<open>None\<close> before the first load). The result is the returned value or the exception
  of \<^verbatim>\<open>LSTM()\<close>, which is raised before the \<^verbatim>\<open>try\<close> block, paired with the new state.
  If the file is missing or loading raises, the model with its initial weights is returned.
\<close>

definition load_ecg_model ::
  "torch_env \<Rightarrow> ecg_model option \<Rightarrow> (error + ecg_model option) \<times> ecg_model option" where
  "load_ecg_model env g =
     (case g of
        Some m \<Rightarrow> (Inr (Some m), g)
      | None \<Rightarrow>
          (case new_LSTM env of
             Inl e \<Rightarrow> (Inl e, None)
           | Inr m0 \<Rightarrow>
               if \<not> model_file_exists env then (Inr (Some m0), Some m0)
               else
                 (case load_state_dict env m0 of
                    Inl e \<Rightarrow> (Inr (Some m0), Some m0)
                  | Inr m \<Rightarrow> (Inr (Some m), Some m))))"

text \<open>
  \<^verbatim>\<open>torch.argmax\<close> of one row: the index of the first maximal value; it raises on an empty
  row. \<open>argmax_from best v i xs\<close> scans the values \<open>xs\<close>, which start at index \<open>i\<close>, with
  the best index and value so far.
\<close>

fun argmax_from :: "nat \<Rightarrow> real \<Rightarrow> nat \<Rightarrow> real list \<Rightarrow> nat" where
  "argmax_from best v i [] = best"
| "argmax_from best v i (x # xs) =
     (if v < x then argmax_from i x (Suc i) xs else argmax_from best v (Suc i) xs)"

definition argmax :: "real list \<Rightarrow> error + nat" where
  "argmax xs = (case xs of [] \<Rightarrow> Inl RuntimeError | x # rest \<Rightarrow> Inr (argmax_from 0 x 1 rest))"

definition softmax :: "real list \<Rightarrow> real list" where
  "softmax xs = map (\<lambda>x. exp x / sum_list (map exp xs)) xs"

text \<open>The default prediction: class 0 with \<^verbatim>\<open>np.zeros(5)\<close> whose entry 0 is set to 1.0.\<close>

definition default_prediction :: "nat \<times> real list" where
  "default_prediction = (0, (replicate 5 0)[0 := 1])"

text \<open>
  \<^verbatim>\<open>predict_segment\<close>: every exception raised in its body, also the one of
  \<^verbatim>\<open>load_ecg_model\<close>, is caught and answered by the default prediction.
\<close>

definition predict_segment ::
  "torch_env \<Rightarrow> ecg_model option \<Rightarrow> real list \<Rightarrow> (nat \<times> real list) \<times> ecg_model option" where
  "predict_segment env g segment =
     (case load_ecg_model env g of
        (Inl e, g') \<Rightarrow> (default_prediction, g')
      | (Inr None, g') \<Rightarrow> (default_prediction, g')
      | (Inr (Some ecg_model), g') \<Rightarrow>
          (case ecg_model segment of
             Inl e \<Rightarrow> (default_prediction, g')
           | Inr prediction \<Rightarrow>
               (case argmax prediction of
                  Inl e \<Rightarrow> (default_prediction, g')
                | Inr predicted_class \<Rightarrow> ((predicted_class, softmax prediction), g'))))"

subsection \<open>Labels and per-segment results\<close>

definition CLASS_MAPPING :: "(nat \<times> string) list" where
  "CLASS_MAPPING =
     [(0, ''Normal Beat (N)''),
      (1, ''Atrial Premature Beat (A)''),
      (2, ''Ventricular Premature Beat (V)''),
      (3, ''Left Bundle Branch Block Beat (L)''),
      (4, ''Right Bundle Branch Block Beat (R)'')]"

text \<open>\<^verbatim>\<open>CLASS_MAPPING.values()\<close>, in the order of the dictionary.\<close>

definition class_labels :: "string list" where
  "class_labels = map snd CLASS_MAPPING"

text \<open>\<^verbatim>\<open>CLASS_MAPPING[k]\<close> raises \<^verbatim>\<open>KeyError\<close> for a key that is not in the dictionary.\<close>

definition class_mapping_get :: "nat \<Rightarrow> error + string" where
  "class_mapping_get k = (case map_of CLASS_MAPPING k of None \<Rightarrow> Inl KeyError | Some l \<Rightarrow> Inr l)"

text \<open>
  One entry of \<^verbatim>\<open>results\<close>. A Python dictionary is modelled as an association list in
  insertion order; the keys of a well-formed dictionary are distinct.
\<close>

record SegmentResult =
  segment :: int
  prediction :: string
  probabilities :: "(string \<times> real) list"

text \<open>
  The comprehension \<^verbatim>\<open>{CLASS_MAPPING[i]: float(prob) for i, prob in enumerate(probs)}\<close>;
  \<open>probabilities_from i probs\<close> enumerates \<open>probs\<close> from index \<open>i\<close>.
\<close>

fun probabilities_from :: "nat \<Rightarrow> real list \<Rightarrow> error + (string \<times> real) list" where
  "probabilities_from i [] = Inr []"
| "probabilities_from i (prob # probs) =
     (case class_mapping_get i of
        Inl e \<Rightarrow> Inl e
      | Inr l \<Rightarrow>
          (case probabilities_from (Suc i) probs of
             Inl e \<Rightarrow> Inl e
           | Inr d \<Rightarrow> Inr ((l, prob) # d)))"

text \<open>The dictionary appended to \<^verbatim>\<open>results\<close> for the window that starts at sample \<open>i\<close>.\<close>

definition segment_result :: "int \<Rightarrow> nat \<times> real list \<Rightarrow> error + SegmentResult" where
  "segment_result i pp =
     (case class_mapping_get (fst pp) of
        Inl e \<Rightarrow> Inl e
      | Inr l \<Rightarrow>
          (case probabilities_from 0 (snd pp) of
             Inl e \<Rightarrow> Inl e
           | Inr d \<Rightarrow> Inr \<lparr>segment = i div 300 + 1, prediction = l, probabilities = d\<rparr>))"

subsection \<open>The segment loop of \<^verbatim>\<open>upload_ecg_files\<close>\<close>

text \<open>\<^verbatim>\<open>range(start, stop, step)\<close> for a positive step, the only kind the source uses.\<close>

function py_range :: "int \<Rightarrow> int \<Rightarrow> int \<Rightarrow> int list" where
  "py_range start stop step =
     (if 0 < step \<and> start < stop then start # py_range (start + step) stop step else [])"
  by pat_completeness auto
termination
  by (relation "measure (\<lambda>(start, stop, step). nat (stop - start))") auto

declare py_range.simps [simp del]

text \<open>
  The body of \<^verbatim>\<open>for i in range(0, len(denoised_data) - 300, 300)\<close>, run over the list of
  the values of \<open>i\<close>. The slice \<^verbatim>\<open>denoised_data[i:i+300]\<close> is \<open>take 300 (drop i _)\<close>, as
  \<open>i\<close> is never negative. \<^verbatim>\<open>predict_segment\<close> returns an integer class on every path, so
  the test \<^verbatim>\<open>pred_class is not None\<close> always succeeds. A \<^verbatim>\<open>KeyError\<close> of the appended
  dictionary leaves the loop.
\<close>

fun segment_loop ::
  "torch_env \<Rightarrow> ecg_model option \<Rightarrow> real list \<Rightarrow> int list
     \<Rightarrow> (error + SegmentResult list) \<times> ecg_model option" where
  "segment_loop env g denoised_data [] = (Inr [], g)"
| "segment_loop env g denoised_data (i # rest) =
     (let seg = take 300 (drop (nat i) denoised_data) in
      if length seg = 300 then
        (case predict_segment env g seg of
           (pp, g') \<Rightarrow>
             (case segment_result i pp of
                Inl e \<Rightarrow> (Inl e, g')
              | Inr r \<Rightarrow>
                  (case segment_loop env g' denoised_data rest of
                     (Inl e, g'') \<Rightarrow> (Inl e, g'')
                   | (Inr results, g'') \<Rightarrow> (Inr (r # results), g''))))
      else segment_loop env g denoised_data rest)"

text \<open>The loop with its range: lines 96 to 106 of \<^verbatim>\<open>upload_ecg_files\<close>.\<close>

definition make_predictions ::
  "torch_env \<Rightarrow> ecg_model option \<Rightarrow> real list \<Rightarrow> (error + SegmentResult list) \<times> ecg_model option" where
  "make_predictions env g denoised_data =
     segment_loop env g denoised_data (py_range 0 (int (length denoised_data) - 300) 300)"

subsection \<open>\<^verbatim>\<open>calculate_final_prediction\<close>\<close>

text \<open>
  \<^verbatim>\<open>collections.Counter\<close> over an iterable: a dictionary from element to count, keys in
  the order of their first occurrence.
\<close>

fun counter_incr :: "'a \<Rightarrow> ('a \<times> nat) list \<Rightarrow> ('a \<times> nat) list" where
  "counter_incr k [] = [(k, 1)]"
| "counter_incr k ((k', n) # d) =
     (if k = k' then (k', n + 1) # d else (k', n) # counter_incr k d)"

definition Counter :: "'a list \<Rightarrow> ('a \<times> nat) list" where
  "Counter xs = foldl (\<lambda>d k. counter_incr k d) [] xs"

text \<open>The count of a key of a counter; a missing key counts 0.\<close>

definition counter_get :: "('a \<times> nat) list \<Rightarrow> 'a \<Rightarrow> nat" where
  "counter_get d k = (case map_of d k of None \<Rightarrow> 0 | Some n \<Rightarrow> n)"

text \<open>
  \<^verbatim>\<open>max(iterable, key=f)\<close>: the first element whose key is maximal (a later element
  replaces the current one only when its key is strictly greater); \<^verbatim>\<open>ValueError\<close> on
  an empty iterable.
\<close>

fun max_from :: "('a \<Rightarrow> nat) \<Rightarrow> 'a \<Rightarrow> 'a list \<Rightarrow> 'a" where
  "max_from f best [] = best"
| "max_from f best (x # xs) = (if f best < f x then max_from f x xs else max_from f best xs)"

definition py_max :: "('a \<Rightarrow> nat) \<Rightarrow> 'a list \<Rightarrow> error + 'a" where
  "py_max f xs = (case xs of [] \<Rightarrow> Inl ValueError | x # rest \<Rightarrow> Inr (max_from f x rest))"

text \<open>
  \<^verbatim>\<open>round(x, 2)\<close> of a double \<open>x\<close>: the exact value of \<open>x\<close> is rounded to the nearest
  multiple of 1/100, a tie going to the even one, and the double nearest to that decimal
  is returned.
\<close>

definition round2 :: "real \<Rightarrow> real" where
  "round2 x = round_double (of_int (round_half_even (x * 100)) / 100)"

text \<open>\<^verbatim>\<open>total_probabilities[cls] += prob\<close>: \<^verbatim>\<open>KeyError\<close> when \<open>cls\<close> is not a key.\<close>

fun dict_add :: "string \<Rightarrow> real \<Rightarrow> (string \<times> real) list \<Rightarrow> error + (string \<times> real) list" where
  "dict_add cls prob [] = Inl KeyError"
| "dict_add cls prob ((k, v) # d) =
     (if cls = k then Inr ((k, v + prob) # d)
      else (case dict_add cls prob d of Inl e \<Rightarrow> Inl e | Inr d' \<Rightarrow> Inr ((k, v) # d')))"

text \<open>The inner loop, over the items of one \<^verbatim>\<open>probabilities\<close> dictionary.\<close>

fun add_items :: "(string \<times> real) list \<Rightarrow> (string \<times> real) list \<Rightarrow> error + (string \<times> real) list" where
  "add_items [] totals = Inr totals"
| "add_items ((cls, prob) # items) totals =
     (case dict_add cls prob totals of Inl e \<Rightarrow> Inl e | Inr totals' \<Rightarrow> add_items items totals')"

text \<open>The outer loop, over the predictions.\<close>

fun add_predictions :: "SegmentResult list \<Rightarrow> (string \<times> real) list \<Rightarrow> error + (string \<times> real) list" where
  "add_predictions [] totals = Inr totals"
| "add_predictions (pred # preds) totals =
     (case add_items (probabilities pred) totals of
        Inl e \<Rightarrow> Inl e
      | Inr totals' \<Rightarrow> add_predictions preds totals')"

record FinalPrediction =
  final_class :: string
  confidence :: real
  distribution :: "(string \<times> nat) list"
  average_probabilities :: "(string \<times> real) list"

text \<open>
  \<^verbatim>\<open>calculate_final_prediction\<close>. The field \<open>final_class\<close> is the entry \<^verbatim>\<open>'class'\<close> of the
  returned dictionary. \<^verbatim>\<open>max\<close> iterates over the keys of the counter; on an empty list
  of predictions it raises before anything is divided by \<^verbatim>\<open>len(predictions)\<close>. The
  confidence is a quotient of integers, then a product, both rounded to doubles; they are
  at most 100, so they cannot overflow.
\<close>

definition calculate_final_prediction :: "SegmentResult list \<Rightarrow> error + FinalPrediction" where
  "calculate_final_prediction predictions =
     (let class_counts = Counter (map prediction predictions) in
      case py_max (counter_get class_counts) (map fst class_counts) of
        Inl e \<Rightarrow> Inl e
      | Inr fc \<Rightarrow>
          if length predictions = 0 then Inl ZeroDivisionError
          else
            (let conf =
                   round_double
                     (round_double
                        (real (counter_get class_counts fc) / real (length predictions)) * 100) in
             case add_predictions predictions (map (\<lambda>cls. (cls, 0)) class_labels) of
               Inl e \<Rightarrow> Inl e
             | Inr total_probabilities \<Rightarrow>
                 Inr \<lparr>final_class = fc,
                      confidence = round2 conf,
                      distribution = class_counts,
                      average_probabilities =
                        map (\<lambda>(cls, prob). (cls, prob / real (length predictions)))
                          total_probabilities\<rparr>))"


subsection \<open>Notions used in the statements\<close>

text \<open>The position of the first occurrence of \<open>x\<close> in \<open>xs\<close> (the length of \<open>xs\<close> if there is none).\<close>

definition first_occurrence :: "'a list \<Rightarrow> 'a \<Rightarrow> nat" where
  "first_occurrence xs x = length (takeWhile (\<lambda>y. y \<noteq> x) xs)"

text \<open>The value of a key of a probability dictionary, 0 for an absent key.\<close>

definition prob_of :: "(string \<times> real) list \<Rightarrow> string \<Rightarrow> real" where
  "prob_of d cls = (case map_of d cls of None \<Rightarrow> 0 | Some v \<Rightarrow> v)"

text \<open>
  A per-segment result as the data model has it: its probability dictionary is a
  dictionary (distinct keys) whose keys are among the five labels.
\<close>

definition well_formed_result :: "SegmentResult \<Rightarrow> bool" where
  "well_formed_result r =
     (distinct (map fst (probabilities r)) \<and> set (map fst (probabilities r)) \<subseteq> set class_labels)"

text \<open>
  The network of the source ends in \<^verbatim>\<open>torch.nn.Linear(128, num_classes)\<close> with
  \<^verbatim>\<open>num_classes = 5\<close>: when the forward pass returns, it returns five logits.
\<close>

definition five_logits :: "ecg_model \<Rightarrow> bool" where
  "five_logits m = (\<forall>seg out. m seg = Inr out \<longrightarrow> length out = 5)"

definition models_have_five_logits :: "torch_env \<Rightarrow> ecg_model option \<Rightarrow> bool" where
  "models_have_five_logits env g =
     (\<forall>m. fst (load_ecg_model env g) = Inr (Some m) \<longrightarrow> five_logits m)"



text \<open>The \<open>k\<close>-th window of 300 samples (\<open>k\<close> counted from 0).\<close>

definition window :: "real list \<Rightarrow> nat \<Rightarrow> real list" where
  "window xs k = take 300 (drop (300 * k) xs)"

text \<open>
  The entry of \<^verbatim>\<open>results\<close> expected for window \<open>k\<close>: its 1-based number, and the label and the
  labelled probabilities of what \<^verbatim>\<open>predict_segment\<close> answers on that window.
\<close>

definition window_result :: "torch_env \<Rightarrow> ecg_model option \<Rightarrow> real list \<Rightarrow> nat \<Rightarrow> SegmentResult" where
  "window_result env g xs k =
     (let pp = fst (predict_segment env g (window xs k))
      in \<lparr>segment = int k + 1,
          prediction = class_labels ! fst pp,
          probabilities = zip class_labels (snd pp)\<rparr>)"

text \<open>
  The entry that the segment loop appends when the class is \<open>c\<close> and the probability vector
  is 1 at \<open>c\<close> and 0 elsewhere; for \<open>c = 0\<close> this is the entry of the default prediction.
\<close>

definition one_hot_result :: "int \<Rightarrow> nat \<Rightarrow> SegmentResult" where
  "one_hot_result n c =
     \<lparr>segment = n, prediction = class_labels ! c,
      probabilities = zip class_labels ((replicate 5 0)[c := 1])\<rparr>"


text \<open>A strictly positive finite double.\<close>

definition positive_double :: "real \<Rightarrow> bool" where
  "positive_double q = (0 < q \<and> q \<le> max_double \<and> round_double q = q)"


section \<open>Properties of the rounding to doubles\<close>

subsection \<open>Rounding is monotone and idempotent\<close>

lemma round_half_even_of_int: "round_half_even (of_int n) = n"
  by (simp add: round_half_even_def)

lemma round_half_even_mono: "x \<le> y \<Longrightarrow> round_half_even x \<le> round_half_even y"
proof -
  assume xy: "x \<le> y"
  then have f: "\<lfloor>x\<rfloor> \<le> \<lfloor>y\<rfloor>" by (rule floor_mono)
  have lo: "\<lfloor>y\<rfloor> \<le> round_half_even y" by (simp add: round_half_even_def Let_def)
  have hi: "round_half_even x \<le> \<lfloor>x\<rfloor> + 1" by (simp add: round_half_even_def Let_def)
  show ?thesis
  proof (cases "\<lfloor>x\<rfloor> < \<lfloor>y\<rfloor>")
    case True
    with lo hi show ?thesis by linarith
  next
    case False
    with f have eq: "\<lfloor>x\<rfloor> = \<lfloor>y\<rfloor>" by simp
    with xy have "x - of_int \<lfloor>y\<rfloor> \<le> y - of_int \<lfloor>y\<rfloor>" by simp
    then show ?thesis
      unfolding round_half_even_def Let_def eq by auto
  qed
qed

lemma floor_log2_eq:
  assumes "2 powi k \<le> x" "x < 2 powi (k + 1)"
  shows "\<lfloor>log 2 x\<rfloor> = k"
proof -
  have "(0::real) < 2 powi k" by simp
  with assms(1) have pos: "0 < x" by linarith
  have "(2::real) powr (of_int k) = 2 powi k" by (simp add: powr_real_of_int')
  moreover have "(2::real) powr (of_int k + 1) = 2 powi (k + 1)"
    using powr_real_of_int' [of 2 "k + 1"] by simp
  ultimately show ?thesis using assms pos by (simp add: floor_log_eq_powr_iff)
qed

lemma floor_log2_bounds:
  assumes "0 < x"
  shows "2 powi \<lfloor>log 2 x\<rfloor> \<le> x \<and> x < 2 powi (\<lfloor>log 2 x\<rfloor> + 1)"
proof -
  have "(2::real) powr (of_int \<lfloor>log 2 x\<rfloor>) = 2 powi \<lfloor>log 2 x\<rfloor>" by (simp add: powr_real_of_int')
  moreover have "(2::real) powr (of_int \<lfloor>log 2 x\<rfloor> + 1) = 2 powi (\<lfloor>log 2 x\<rfloor> + 1)"
    using powr_real_of_int' [of 2 "\<lfloor>log 2 x\<rfloor> + 1"] by simp
  moreover have "2 powr (of_int \<lfloor>log 2 x\<rfloor>) \<le> x \<and> x < 2 powr (of_int \<lfloor>log 2 x\<rfloor> + 1)"
    using floor_log_eq_powr_iff [of x 2 "\<lfloor>log 2 x\<rfloor>"] assms by simp
  ultimately show ?thesis by simp
qed

lemma double_exponent_upper:
  assumes "0 < x"
  shows "x < 2 powi (double_exponent x + 1)"
proof -
  have "\<lfloor>log 2 x\<rfloor> + 1 \<le> double_exponent x + 1"
    using assms by (simp add: double_exponent_def)
  then have "(2::real) powi (\<lfloor>log 2 x\<rfloor> + 1) \<le> 2 powi (double_exponent x + 1)"
    by (intro power_int_increasing) simp_all
  with floor_log2_bounds [OF assms] show ?thesis by linarith
qed

lemma double_exponent_lower:
  assumes "0 < x" "- 1022 < double_exponent x"
  shows "2 powi (double_exponent x) \<le> x"
proof -
  from assms have "double_exponent x = \<lfloor>log 2 x\<rfloor>"
    by (simp add: double_exponent_def max_def split: if_splits)
  with floor_log2_bounds [OF assms(1)] show ?thesis by simp
qed

lemma double_exponent_mono:
  assumes "0 < x" "x \<le> y"
  shows "double_exponent x \<le> double_exponent y"
proof -
  have "log 2 x \<le> log 2 y" using assms by simp
  then have "\<lfloor>log 2 x\<rfloor> \<le> \<lfloor>log 2 y\<rfloor>" by (rule floor_mono)
  with assms show ?thesis by (simp add: double_exponent_def)
qed

lemma double_exponent_eq:
  assumes "2 powi k \<le> x" "x < 2 powi (k + 1)" "- 1022 \<le> k"
  shows "double_exponent x = k"
proof -
  have "(0::real) < 2 powi k" by simp
  with assms(1) have pos: "0 < x" by linarith
  from floor_log2_eq [OF assms(1,2)] assms(3) pos show ?thesis
    by (simp add: double_exponent_def)
qed

lemma double_exponent_subnormal:
  assumes "0 < x" "x < 2 powi (- 1022)"
  shows "double_exponent x = - 1022"
proof -
  have "\<lfloor>log 2 x\<rfloor> < - 1022"
  proof (rule ccontr)
    assume "\<not> \<lfloor>log 2 x\<rfloor> < - 1022"
    then have "(2::real) powi (- 1022) \<le> 2 powi \<lfloor>log 2 x\<rfloor>"
      by (intro power_int_increasing) simp_all
    with floor_log2_bounds [OF assms(1)] assms(2) show False by linarith
  qed
  with assms(1) show ?thesis by (simp add: double_exponent_def)
qed

lemma two_powi_add: "(2::real) powi (m + n) = 2 powi m * 2 powi n"
  by (rule power_int_add) simp

lemma ulp_times_2_53: "2 ^ 53 * (2::real) powi (e - 52) = 2 powi (e + 1)"
  using two_powi_add [of 53 "e - 52"] by (simp add: add.commute)

lemma ulp_times_2_52: "2 ^ 52 * (2::real) powi (e - 52) = 2 powi e"
  using two_powi_add [of 52 "e - 52"] by simp

lemma double_ulp_pos: "0 < double_ulp x"
  by (simp add: double_ulp_def)

lemma round_double_0: "round_double 0 = 0"
  by (simp add: round_double_def)

lemma round_double_nonneg: "0 \<le> x \<Longrightarrow> 0 \<le> round_double x"
proof -
  assume x: "0 \<le> x"
  have "0 \<le> x / double_ulp x" using x double_ulp_pos [of x] by simp
  then have "round_half_even 0 \<le> round_half_even (x / double_ulp x)"
    by (rule round_half_even_mono)
  then have "0 \<le> round_half_even (x / double_ulp x)"
    using round_half_even_of_int [of 0] by simp
  then show ?thesis using double_ulp_pos [of x] by (simp add: round_double_def)
qed

text \<open>The rounded mantissa of a positive number lies between 0 and 2^53, and above 2^52
  for a normal number.\<close>

lemma mantissa_upper:
  assumes "0 < x"
  shows "round_half_even (x / double_ulp x) \<le> 2 ^ 53"
proof -
  have "x < 2 powi (double_exponent x + 1)" using assms by (rule double_exponent_upper)
  then have "x < 2 ^ 53 * double_ulp x"
    unfolding double_ulp_def ulp_times_2_53 .
  then have "x / double_ulp x \<le> 2 ^ 53"
    using double_ulp_pos [of x] by (simp add: pos_divide_le_eq)
  then have "round_half_even (x / double_ulp x) \<le> round_half_even (of_int (2 ^ 53))"
    by (intro round_half_even_mono) simp
  then show ?thesis by (simp only: round_half_even_of_int)
qed

lemma mantissa_lower:
  assumes "0 < x" "- 1022 < double_exponent x"
  shows "2 ^ 52 \<le> round_half_even (x / double_ulp x)"
proof -
  from double_exponent_lower [OF assms]
  have "2 ^ 52 * double_ulp x \<le> x"
    unfolding double_ulp_def ulp_times_2_52 .
  then have "2 ^ 52 \<le> x / double_ulp x"
    using double_ulp_pos [of x] by (simp add: pos_le_divide_eq)
  then have "round_half_even (of_int (2 ^ 52)) \<le> round_half_even (x / double_ulp x)"
    by (intro round_half_even_mono) simp
  then show ?thesis by (simp only: round_half_even_of_int)
qed

lemma round_double_le_binade:
  assumes "0 < x"
  shows "round_double x \<le> 2 powi (double_exponent x + 1)"
proof -
  have "of_int (round_half_even (x / double_ulp x)) \<le> (2 ^ 53 :: real)"
    using mantissa_upper [OF assms] by (metis of_int_le_iff of_int_numeral of_int_power)
  then have "round_double x \<le> 2 ^ 53 * double_ulp x"
    using assms double_ulp_pos [of x] by (simp add: round_double_def)
  also have "\<dots> = 2 powi (double_exponent x + 1)"
    unfolding double_ulp_def by (rule ulp_times_2_53)
  finally show ?thesis .
qed

lemma round_double_ge_binade:
  assumes "0 < x" "- 1022 < double_exponent x"
  shows "2 powi (double_exponent x) \<le> round_double x"
proof -
  have "(2 ^ 52 :: real) \<le> of_int (round_half_even (x / double_ulp x))"
    using mantissa_lower [OF assms] by (metis of_int_le_iff of_int_numeral of_int_power)
  then have "2 ^ 52 * double_ulp x \<le> round_double x"
    using assms double_ulp_pos [of x] by (simp add: round_double_def)
  moreover have "2 ^ 52 * double_ulp x = 2 powi (double_exponent x)"
    unfolding double_ulp_def by (rule ulp_times_2_52)
  ultimately show ?thesis by simp
qed

lemma round_double_mono:
  assumes "0 \<le> x" "x \<le> y"
  shows "round_double x \<le> round_double y"
proof (cases "x = 0")
  case True
  with assms round_double_nonneg [of y] show ?thesis by (simp add: round_double_0)
next
  case False
  with assms have x: "0 < x" and y: "0 < y" by simp_all
  from double_exponent_mono [OF x assms(2)]
  consider "double_exponent x = double_exponent y" | "double_exponent x < double_exponent y"
    by linarith
  then show ?thesis
  proof cases
    case 1
    then have u: "double_ulp x = double_ulp y" by (simp add: double_ulp_def)
    have "x / double_ulp y \<le> y / double_ulp y"
      using assms(2) double_ulp_pos [of y] by (simp add: divide_right_mono)
    then have "round_half_even (x / double_ulp y) \<le> round_half_even (y / double_ulp y)"
      by (rule round_half_even_mono)
    then show ?thesis
      using x y double_ulp_pos [of y] by (simp add: round_double_def u)
  next
    case 2
    then have n: "- 1022 < double_exponent y" by (simp add: double_exponent_def)
    have "round_double x \<le> 2 powi (double_exponent x + 1)"
      using x by (rule round_double_le_binade)
    also have "\<dots> \<le> 2 powi (double_exponent y)"
      using 2 by (intro power_int_increasing) simp_all
    also have "\<dots> \<le> round_double y" using y n by (rule round_double_ge_binade)
    finally show ?thesis .
  qed
qed

lemma round_double_normal:
  assumes "2 powi k \<le> x" "x < 2 powi (k + 1)" "- 1022 \<le> k"
  shows "round_double x = of_int (round_half_even (x / 2 powi (k - 52))) * 2 powi (k - 52)"
proof -
  have "(0::real) < 2 powi k" by simp
  with assms(1) have "x \<noteq> 0" by linarith
  with double_exponent_eq [OF assms] show ?thesis
    by (simp add: round_double_def double_ulp_def)
qed


lemma round_double_idem:
  assumes "0 \<le> x"
  shows "round_double (round_double x) = round_double x"
proof (cases "x = 0")
  case True
  then show ?thesis by (simp add: round_double_0)
next
  case False
  with assms have x: "0 < x" by simp
  define e where "e = double_exponent x"
  define n where "n = round_half_even (x / double_ulp x)"
  have u: "double_ulp x = 2 powi (e - 52)" by (simp add: double_ulp_def e_def)
  have r: "round_double x = of_int n * 2 powi (e - 52)"
    using False by (simp add: round_double_def n_def u)
  have e_min: "- 1022 \<le> e" by (simp add: e_def double_exponent_def)
  have n_hi: "n \<le> 2 ^ 53" unfolding n_def using x by (rule mantissa_upper)
  have "0 \<le> x / double_ulp x" using x double_ulp_pos [of x] by simp
  then have "round_half_even (of_int 0) \<le> n"
    unfolding n_def by (intro round_half_even_mono) simp
  then have n_lo: "0 \<le> n" unfolding round_half_even_of_int .
  consider "n = 0" | "n = 2 ^ 53" | "0 < n" "n < 2 ^ 53" using n_lo n_hi by linarith
  then show ?thesis
  proof cases
    case 1
    then show ?thesis by (simp add: r round_double_0)
  next
    case 2
    have val: "round_double x = 2 powi (e + 1)"
      unfolding r 2 using ulp_times_2_53 [of e] by simp
    have "round_double (2 powi (e + 1))
        = of_int (round_half_even (2 powi (e + 1) / 2 powi (e + 1 - 52))) * 2 powi (e + 1 - 52)"
      using e_min by (intro round_double_normal) (simp_all add: power_int_strict_increasing)
    also have "(2::real) powi (e + 1) / 2 powi (e + 1 - 52) = of_int (2 ^ 52)"
      using ulp_times_2_52 [of "e + 1"] by (simp add: field_simps)
    also have "of_int (round_half_even (of_int (2 ^ 52))) * (2::real) powi (e + 1 - 52)
        = 2 powi (e + 1)"
      unfolding round_half_even_of_int using ulp_times_2_52 [of "e + 1"] by simp
    finally show ?thesis unfolding val .
  next
    case 3
    let ?r = "of_int n * (2::real) powi (e - 52)"
    have rpos: "0 < ?r" using 3(1) by simp
    have "of_int n < (2 ^ 53 :: real)"
      using 3(2) by (metis of_int_less_iff of_int_numeral of_int_power)
    then have "?r < 2 ^ 53 * 2 powi (e - 52)" by simp
    then have r_hi: "?r < 2 powi (e + 1)" unfolding ulp_times_2_53 .
    have ex: "double_exponent ?r = e"
    proof (cases "2 ^ 52 \<le> n")
      case True
      then have "(2 ^ 52 :: real) \<le> of_int n"
        by (metis of_int_le_iff of_int_numeral of_int_power)
      then have "2 ^ 52 * 2 powi (e - 52) \<le> ?r" by simp
      then have "2 powi e \<le> ?r" unfolding ulp_times_2_52 .
      then show ?thesis using r_hi e_min by (rule double_exponent_eq)
    next
      case False
      have "\<not> - 1022 < e"
      proof
        assume "- 1022 < e"
        then have "2 ^ 52 \<le> n"
          unfolding n_def e_def using x by (intro mantissa_lower) simp_all
        with False show False by simp
      qed
      with e_min have e: "e = - 1022" by simp
      from False have "of_int n < (2 ^ 52 :: real)"
        by (metis not_le of_int_less_iff of_int_numeral of_int_power)
      then have "?r < 2 ^ 52 * 2 powi (e - 52)" by simp
      then have "?r < 2 powi e" unfolding ulp_times_2_52 .
      with rpos show ?thesis unfolding e by (intro double_exponent_subnormal) simp_all
    qed
    have "?r \<noteq> 0" using 3(1) by simp
    then have "round_double ?r = of_int (round_half_even (?r / 2 powi (e - 52))) * 2 powi (e - 52)"
      by (simp add: round_double_def double_ulp_def ex)
    also have "?r / 2 powi (e - 52) = of_int n" by simp
    finally show ?thesis unfolding r round_half_even_of_int .
  qed
qed

lemma round_double_1: "round_double 1 = 1"
proof -
  have "round_double 1 = of_int (round_half_even (1 / 2 powi (0 - 52))) * 2 powi (0 - 52)"
    by (rule round_double_normal) simp_all
  also have "(1::real) / 2 powi (0 - 52) = of_int (2 ^ 52)" by (simp add: power_int_minus)
  finally show ?thesis unfolding round_half_even_of_int by (simp add: power_int_minus)
qed

subsection \<open>Rounding at some values\<close>



lemma round_double_100: "round_double 100 = 100"
  by (subst round_double_normal [of 6])
     (simp_all add: power_int_minus round_half_even_def field_simps)

text \<open>
  The confidence of a final class predicted by 49 of 160 segments: the quotient and its
  product by 100 are rounded to doubles, the product lies just above 30.625, and
  \<^verbatim>\<open>round\<close> gives the double nearest to 30.63.
\<close>

lemma round_double_49_160: "round_double (49 / 160) = 2758454771764429 / 2 ^ 53"
  by (subst round_double_normal [of "- 2"])
     (simp_all add: power_int_minus round_half_even_def field_simps)

lemma round_double_49_160_percent:
  "round_double (2758454771764429 / 2 ^ 53 * 100) = 8620171161763841 / 2 ^ 48"
  by (subst round_double_normal [of 4])
     (simp_all add: power_int_minus round_half_even_def field_simps)






lemma confidence_49_of_160:
  "round2 (round_double (round_double (49 / 160) * 100)) = round_double (3063 / 100)"
  unfolding round_double_49_160 round_double_49_160_percent
  by (simp add: round2_def round_half_even_def)

lemma round_double_bounds_values:
  "round_double (513 / 512) = 513 / 512"
  "round_double 32 = 32"
  "round_double (1 / 32) = 1 / 32"
  "round_double (31 / 32) = 31 / 32"
proof -
  show "round_double (513 / 512) = 513 / 512"
    by (subst round_double_normal [of 0])
       (simp_all add: power_int_minus round_half_even_def field_simps)
  show "round_double 32 = 32"
    by (subst round_double_normal [of 5])
       (simp_all add: power_int_minus round_half_even_def field_simps)
  show "round_double (1 / 32) = 1 / 32"
    by (subst round_double_normal [of "- 5"])
       (simp_all add: power_int_minus round_half_even_def field_simps)
  show "round_double (31 / 32) = 31 / 32"
    by (subst round_double_normal [of "- 1"])
       (simp_all add: power_int_minus round_half_even_def field_simps)
qed

lemma double_result_finite:
  "\<bar>round_double v\<bar> \<le> max_double \<Longrightarrow> double_result v = Inr (round_double v)"
  by (simp add: double_result_def)

lemma max_double_ge_32: "(32::real) \<le> max_double"
  by (simp add: max_double_def)

lemma round_double_1_1000: "round_double (1 / 1000) = 1152921504606847 / 2 ^ 60"
  by (subst round_double_normal [of "- 10"])
     (simp_all add: power_int_minus round_half_even_def field_simps)

lemma round_double_10: "round_double 10 = 10"
  by (subst round_double_normal [of 3])
     (simp_all add: power_int_minus round_half_even_def field_simps)

lemma round_double_7: "round_double 7 = 7"
  by (subst round_double_normal [of 2])
     (simp_all add: power_int_minus round_half_even_def field_simps)


section \<open>Properties of the Kalman filter\<close>

subsection \<open>The gain and the error covariance\<close>

lemma kalman_update_positive:
  assumes "0 < snd s" "0 \<le> Q" "0 < R"
  shows "\<exists>it. kalman_update Q R s z = Inr it \<and> 0 < gain_of it \<and> gain_of it < 1 \<and> 0 < covariance_of it"
proof -
  let ?pm = "snd s + Q"
  have pm: "0 < ?pm" using assms by simp
  have den: "0 < ?pm + R" using assms by simp
  let ?K = "?pm / (?pm + R)"
  have K0: "0 < ?K" using pm den by simp
  have K1: "?K < 1" using pm den assms(3) by simp
  have "0 < (1 - ?K) * ?pm" using K1 pm by simp
  with K0 K1 den show ?thesis
    by (simp add: kalman_update_def Let_def gain_of_def covariance_of_def)
qed

lemma kalman_loop_positive:
  assumes "0 \<le> Q" "0 < R"
  shows "0 < snd s \<Longrightarrow> \<exists>its. kalman_loop Q R s zs = Inr its \<and> length its = length zs \<and>
           (\<forall>it \<in> set its. 0 < gain_of it \<and> gain_of it < 1 \<and> 0 < covariance_of it)"
proof (induction zs arbitrary: s)
  case Nil
  then show ?case by simp
next
  case (Cons z zs)
  from kalman_update_positive [OF Cons.prems assms, of z]
  obtain it where it: "kalman_update Q R s z = Inr it" "0 < gain_of it" "gain_of it < 1"
      "0 < covariance_of it" by blast
  from Cons.IH [of "(estimate_of it, covariance_of it)"] it(4)
  obtain its where its: "kalman_loop Q R (estimate_of it, covariance_of it) zs = Inr its"
      "length its = length zs"
      "\<forall>it \<in> set its. 0 < gain_of it \<and> gain_of it < 1 \<and> 0 < covariance_of it" by auto
  show ?case using it its by simp
qed

lemma kalman_stage_trace_positive:
  assumes "signal \<noteq> []" "0 \<le> Q" "0 < R"
  shows "\<exists>its. kalman_stage_trace Q R signal = Inr its \<and> length its = length signal \<and>
           (\<forall>it \<in> set its. 0 < gain_of it \<and> gain_of it < 1 \<and> 0 < covariance_of it)"
proof -
  from assms(1) obtain z0 zs where sig: "signal = z0 # zs" by (cases signal) auto
  have "0 < snd (z0, 1::real)" by simp
  from kalman_loop_positive [OF assms(2,3) this, of signal] show ?thesis
    by (simp add: kalman_stage_trace_def sig)
qed

lemma kalman_loop_length: "kalman_loop Q R s zs = Inr its \<Longrightarrow> length its = length zs"
  by (induction zs arbitrary: s its) (auto split: sum.splits)

lemma kalman_update_error: "kalman_update Q R s z = Inl e \<Longrightarrow> e = ZeroDivisionError"
  by (auto simp: kalman_update_def Let_def split: if_splits)

lemma kalman_loop_error: "kalman_loop Q R s zs = Inl e \<Longrightarrow> e = ZeroDivisionError"
  by (induction zs arbitrary: s) (auto split: sum.splits dest: kalman_update_error)

subsection \<open>The gain and the error covariance in double arithmetic\<close>







subsection \<open>Constant signals\<close>

lemma kalman_update_constant:
  "kalman_update Q R (c, p0) c = Inr it \<Longrightarrow> estimate_of it = c"
  by (auto simp: kalman_update_def Let_def estimate_of_def split: if_splits)

lemma kalman_loop_constant:
  "kalman_loop Q R (c, p0) (replicate n c) = Inr its \<Longrightarrow> map estimate_of its = replicate n c"
proof (induction n arbitrary: p0 its)
  case 0
  then show ?case by simp
next
  case (Suc n)
  from Suc.prems obtain it its' where
    it: "kalman_update Q R (c, p0) c = Inr it" and
    its': "kalman_loop Q R (estimate_of it, covariance_of it) (replicate n c) = Inr its'" and
    eq: "its = it # its'"
    by (auto split: sum.splits)
  have c: "estimate_of it = c" using it by (rule kalman_update_constant)
  from its' Suc.IH [of "covariance_of it" its'] c eq show ?case by simp
qed

lemma kalman_stage_constant:
  assumes "0 \<le> Q" "0 < R" "1 \<le> n"
  shows "kalman_stage Q R (replicate n c) = Inr (replicate n c)"
proof -
  from assms(3) obtain m where n: "n = Suc m" by (cases n) auto
  have ne: "replicate n c \<noteq> []" using n by simp
  from kalman_stage_trace_positive [OF ne assms(1,2)]
  obtain its where its: "kalman_stage_trace Q R (replicate n c) = Inr its" by blast
  then have "kalman_loop Q R (c, 1) (replicate n c) = Inr its"
    by (simp add: kalman_stage_trace_def n)
  then have "map estimate_of its = replicate n c" by (rule kalman_loop_constant)
  with its show ?thesis by (simp add: kalman_stage_def)
qed

text \<open>
  In double arithmetic a constant signal leaves every iteration's estimate at \<open>c\<close>: the
  difference \<^verbatim>\<open>signal[i] - x_hat_minus\<close> is zero. With \<open>0 < Q \<le> 1/512\<close> and \<open>0 < R \<le> 16\<close>
  the covariance stays in \<open>[0, 1]\<close>, so that no operation overflows.
\<close>

lemma kalman_update_double_constant:
  assumes Q: "positive_double Q" "Q \<le> 1 / 512"
    and R: "positive_double R" "R \<le> 16"
    and p: "0 \<le> p" "p \<le> 1"
    and c: "round_double c = c" "\<bar>c\<bar> \<le> max_double"
  shows "\<exists>K p'. kalman_update_double Q R (c, p) c = Inr (K, c, p') \<and> 0 \<le> p' \<and> p' \<le> 1"
proof -
  from Q R have q: "0 < Q" "round_double Q = Q" and r: "0 < R"
    by (simp_all add: positive_double_def)
  define pm where "pm = round_double (p + Q)"
  define den where "den = round_double (pm + R)"
  define K where "K = round_double (pm / den)"
  define a where "a = round_double (1 - K)"
  define p' where "p' = round_double (a * pm)"
  have "round_double Q \<le> pm" unfolding pm_def using p q(1) by (intro round_double_mono) simp_all
  then have pm_ge: "Q \<le> pm" unfolding q(2) .
  then have pm_pos: "0 < pm" using q(1) by linarith
  have "pm \<le> round_double (513 / 512)"
    unfolding pm_def using p q(1) Q(2) by (intro round_double_mono) simp_all
  then have pm_le: "pm \<le> 513 / 512" unfolding round_double_bounds_values .
  have pm_fix: "round_double pm = pm"
    unfolding pm_def using p q(1) by (intro round_double_idem) simp
  have "round_double pm \<le> den" unfolding den_def using pm_pos r by (intro round_double_mono) simp_all
  then have den_ge: "pm \<le> den" unfolding pm_fix .
  then have den_pos: "0 < den" using pm_pos by linarith
  have "den \<le> round_double 32"
    unfolding den_def using pm_pos pm_le r R(2) by (intro round_double_mono) simp_all
  then have den_le: "den \<le> 32" unfolding round_double_bounds_values .
  have ratio: "0 \<le> pm / den" "pm / den \<le> 1" using pm_pos den_pos den_ge by simp_all
  have K0: "0 \<le> K" unfolding K_def using ratio(1) by (rule round_double_nonneg)
  have "K \<le> round_double 1" unfolding K_def using ratio by (intro round_double_mono)
  then have K1: "K \<le> 1" unfolding round_double_1 .
  have a0: "0 \<le> a" unfolding a_def using K1 by (intro round_double_nonneg) simp
  have "a \<le> round_double 1" unfolding a_def using K0 K1 by (intro round_double_mono) simp_all
  then have a1: "a \<le> 1" unfolding round_double_1 .
  have p0: "0 \<le> p'" unfolding p'_def using a0 pm_pos by (intro round_double_nonneg) simp
  have p1: "p' \<le> 1"
  proof (cases "pm \<le> 1")
    case True
    have "a * pm \<le> 1 * 1" using a0 a1 pm_pos True by (intro mult_mono) simp_all
    then have "p' \<le> round_double 1"
      unfolding p'_def using a0 pm_pos by (intro round_double_mono) simp_all
    then show ?thesis unfolding round_double_1 .
  next
    case False
    then have "1 / 32 \<le> pm / den"
      using den_pos den_le by (simp add: pos_le_divide_eq)
    then have "round_double (1 / 32) \<le> K"
      unfolding K_def by (intro round_double_mono) simp_all
    then have "1 / 32 \<le> K" unfolding round_double_bounds_values .
    then have "1 - K \<le> 31 / 32" by simp
    then have "a \<le> round_double (31 / 32)"
      unfolding a_def using K1 by (intro round_double_mono) simp_all
    then have a_le: "a \<le> 31 / 32" unfolding round_double_bounds_values .
    have "a * pm \<le> 31 / 32 * (513 / 512)"
      using a0 a_le pm_pos pm_le by (intro mult_mono) simp_all
    then have "a * pm \<le> 1" by simp
    then have "p' \<le> round_double 1"
      unfolding p'_def using a0 pm_pos by (intro round_double_mono) simp_all
    then show ?thesis unfolding round_double_1 .
  qed
  note M = max_double_ge_32
  have d1: "double_result (p + Q) = Inr pm"
    unfolding pm_def using pm_pos pm_le M by (intro double_result_finite) (simp add: pm_def)
  have d2: "double_result (pm + R) = Inr den"
    unfolding den_def using den_pos den_le M by (intro double_result_finite) (simp add: den_def)
  have d3: "double_result (pm / den) = Inr K"
    unfolding K_def using K0 K1 M by (intro double_result_finite) (simp add: K_def)
  have d4: "double_result 0 = Inr 0"
    using M by (simp add: double_result_def round_double_0)
  have d5: "double_result c = Inr c"
    using c by (simp add: double_result_def)
  have d6: "double_result (1 - K) = Inr a"
    unfolding a_def using a0 a1 M by (intro double_result_finite) (simp add: a_def)
  have d7: "double_result (a * pm) = Inr p'"
    unfolding p'_def using p0 p1 M by (intro double_result_finite) (simp add: p'_def)
  have nz: "den \<noteq> 0" using den_pos by simp
  have "kalman_update_double Q R (c, p) c = Inr (K, c, p')"
    by (simp add: kalman_update_double_def and_then_def d1 d2 nz d3 d4 d5 d6 d7)
  with p0 p1 show ?thesis by blast
qed


lemma kalman_loop_double_constant:
  assumes Q: "positive_double Q" "Q \<le> 1 / 512"
    and R: "positive_double R" "R \<le> 16"
    and c: "round_double c = c" "\<bar>c\<bar> \<le> max_double"
  shows "0 \<le> p \<Longrightarrow> p \<le> 1 \<Longrightarrow>
         \<exists>its. kalman_loop_double Q R (c, p) (replicate n c) = Inr its \<and>
               map estimate_of its = replicate n c"
proof (induction n arbitrary: p)
  case 0
  then show ?case by simp
next
  case (Suc n)
  from kalman_update_double_constant [OF Q R Suc.prems c]
  obtain K p' where it: "kalman_update_double Q R (c, p) c = Inr (K, c, p')"
    and p': "0 \<le> p'" "p' \<le> 1"
    by (elim exE conjE) (rule that, assumption+)
  from Suc.IH [OF p'] obtain its where
    its: "kalman_loop_double Q R (c, p') (replicate n c) = Inr its"
    and est: "map estimate_of its = replicate n c"
    by (elim exE conjE) (rule that, assumption+)
  have "kalman_loop_double Q R (c, p) (replicate (Suc n) c) = Inr ((K, c, p') # its)"
    by (simp add: it its estimate_of_def covariance_of_def)
  moreover have "map estimate_of ((K, c, p') # its) = replicate (Suc n) c"
    by (simp add: est estimate_of_def)
  ultimately show ?case by blast
qed

lemma kalman_stage_double_constant:
  assumes Q: "positive_double Q" "Q \<le> 1 / 512"
    and R: "positive_double R" "R \<le> 16"
    and c: "round_double c = c" "\<bar>c\<bar> \<le> max_double"
    and n: "1 \<le> n"
  shows "kalman_stage_double Q R (replicate n c) = Inr (replicate n c)"
proof -
  from n obtain m where m: "n = Suc m" by (cases n) auto
  from kalman_loop_double_constant [OF Q R c, of 1 n]
  obtain its where its: "kalman_loop_double Q R (c, 1) (replicate n c) = Inr its"
    and est: "map estimate_of its = replicate n c"
    by auto
  from its have "kalman_stage_trace_double Q R (replicate n c) = Inr its"
    by (simp add: kalman_stage_trace_double_def m)
  with est show ?thesis by (simp add: kalman_stage_double_def)
qed

lemma default_parameters_positive_double:
  "positive_double (round_double (1 / 1000))" "round_double (1 / 1000) \<le> 1 / 512"
  "positive_double 10" "positive_double 1"
proof -
  have "round_double (round_double (1 / 1000)) = round_double (1 / 1000)"
    by (rule round_double_idem) simp
  then show "positive_double (round_double (1 / 1000))"
    unfolding positive_double_def using max_double_ge_32
    by (simp add: round_double_1_1000)
  show "round_double (1 / 1000) \<le> 1 / 512" by (simp add: round_double_1_1000)
  show "positive_double 10" "positive_double 1"
    unfolding positive_double_def using max_double_ge_32
    by (simp_all add: round_double_10 round_double_1)
qed

text \<open>
  C8. With the default noise parameters (\<open>Q1 = 0.001\<close>, \<open>R1 = 10\<close>, \<open>Q2 = 0.001\<close>, \<open>R2 = 1\<close>:
  the defaults of the function and of \<^verbatim>\<open>KalmanFilterSettings\<close>), the filter maps a constant
  signal of \<open>n \<ge> 1\<close> samples, all equal to \<open>c\<close>, to the same constant signal; this covers
  the signals of two or more samples, and for a signal of the single sample \<open>x\<close> the output
  is that sample. This holds in exact arithmetic and, for every finite double \<open>c\<close>, in
  double arithmetic, where \<open>0.001\<close> is the double nearest to it and no operation of the
  filter overflows.
\<close>

theorem constant_signal_unchanged:
  assumes "1 \<le> n"
  shows "hierarchical_kalman_filter (replicate n c) (1 / 1000) 10 (1 / 1000) 1
           = Inr (replicate n c) \<and>
         hierarchical_kalman_filter [x] (1 / 1000) 10 (1 / 1000) 1 = Inr [x] \<and>
         (round_double c = c \<and> \<bar>c\<bar> \<le> max_double \<longrightarrow>
            hierarchical_kalman_filter_double (replicate n c)
                (round_double (1 / 1000)) 10 (round_double (1 / 1000)) 1
              = Inr (replicate n c))"
proof -
  have a: "hierarchical_kalman_filter (replicate m d) (1 / 1000) 10 (1 / 1000) 1
      = Inr (replicate m d)"
    if "1 \<le> m" for m d
    using kalman_stage_constant [of "1 / 1000" 10 m d] kalman_stage_constant [of "1 / 1000" 1 m d]
      that
    by (simp add: hierarchical_kalman_filter_def)
  note pd = default_parameters_positive_double
  have b: "hierarchical_kalman_filter_double (replicate n c)
        (round_double (1 / 1000)) 10 (round_double (1 / 1000)) 1 = Inr (replicate n c)"
    if c: "round_double c = c" "\<bar>c\<bar> \<le> max_double"
  proof -
    have s1: "kalman_stage_double (round_double (1 / 1000)) 10 (replicate n c)
        = Inr (replicate n c)"
      using pd(1,2,3) _ c assms by (rule kalman_stage_double_constant) simp
    have s2: "kalman_stage_double (round_double (1 / 1000)) 1 (replicate n c)
        = Inr (replicate n c)"
      using pd(1,2,4) _ c assms by (rule kalman_stage_double_constant) simp
    show ?thesis by (simp add: hierarchical_kalman_filter_double_def s1 s2)
  qed
  from a [of 1 x] a [of n c] assms b show ?thesis by simp
qed

theorem constant_signal_unchanged_witness:
  "(1::nat) \<le> 3 \<and>
   hierarchical_kalman_filter [7, 7, 7] (1 / 1000) 10 (1 / 1000) 1 = Inr [7, 7, 7] \<and>
   hierarchical_kalman_filter [5] (1 / 1000) 10 (1 / 1000) 1 = Inr [5] \<and>
   round_double 7 = 7 \<and> \<bar>7\<bar> \<le> max_double \<and>
   hierarchical_kalman_filter_double [7, 7, 7]
       (round_double (1 / 1000)) 10 (round_double (1 / 1000)) 1 = Inr [7, 7, 7]"
  using constant_signal_unchanged [of 3 7 5] max_double_ge_32
  by (simp add: numeral_3_eq_3 round_double_7)

subsection \<open>The first sample\<close>

lemma kalman_loop_first:
  "kalman_loop Q R (z, p0) (z # zs) = Inr its \<Longrightarrow> its \<noteq> [] \<and> estimate_of (its ! 0) = z"
  by (auto split: sum.splits dest: kalman_update_constant)

lemma kalman_stage_first:
  assumes "kalman_stage Q R signal = Inr out"
  shows "signal \<noteq> [] \<and> length out = length signal \<and> out ! 0 = signal ! 0"
proof -
  from assms obtain its where its: "kalman_stage_trace Q R signal = Inr its"
      and out: "out = map estimate_of its"
    by (auto simp: kalman_stage_def split: sum.splits)
  from its obtain z zs where sig: "signal = z # zs"
    by (cases signal) (auto simp: kalman_stage_trace_def)
  from its have loop: "kalman_loop Q R (z, 1) (z # zs) = Inr its"
    by (simp add: kalman_stage_trace_def sig)
  from kalman_loop_first [OF loop] kalman_loop_length [OF loop] show ?thesis
    by (simp add: out sig)
qed

lemma kalman_stage_error:
  "kalman_stage Q R signal = Inl e \<Longrightarrow> signal \<noteq> [] \<Longrightarrow> e = ZeroDivisionError"
  by (cases signal)
     (auto simp: kalman_stage_def kalman_stage_trace_def split: sum.splits
        dest: kalman_loop_error kalman_update_error)

lemma kalman_stage_total:
  assumes "signal \<noteq> []" "0 \<le> Q" "0 < R"
  shows "\<exists>out. kalman_stage Q R signal = Inr out"
  using kalman_stage_trace_positive [OF assms] by (auto simp: kalman_stage_def)

text \<open>
  C10, as the code has it. For a non-empty signal and any noise parameters the filter
  either raises \<^verbatim>\<open>ZeroDivisionError\<close> (the denominator \<^verbatim>\<open>p_minus + R\<close> of some iteration is
  zero) or returns a signal of the same length whose first sample is the first sample of
  the input. It returns whenever \<open>Q1\<close> and \<open>Q2\<close> are not negative and \<open>R1\<close> and \<open>R2\<close> are
  strictly positive.
\<close>

theorem first_sample_preserved:
  assumes "signal \<noteq> []"
  shows "(case hierarchical_kalman_filter signal q1 r1 q2 r2 of
            Inl e \<Rightarrow> e = ZeroDivisionError
          | Inr out \<Rightarrow> length out = length signal \<and> out ! 0 = signal ! 0) \<and>
         (0 \<le> q1 \<and> 0 < r1 \<and> 0 \<le> q2 \<and> 0 < r2 \<longrightarrow>
            (\<exists>out. hierarchical_kalman_filter signal q1 r1 q2 r2 = Inr out))"
proof
  show "case hierarchical_kalman_filter signal q1 r1 q2 r2 of
            Inl e \<Rightarrow> e = ZeroDivisionError
          | Inr out \<Rightarrow> length out = length signal \<and> out ! 0 = signal ! 0"
  proof (cases "kalman_stage q1 r1 signal")
    case (Inl e)
    with kalman_stage_error [OF Inl assms] show ?thesis
      by (simp add: hierarchical_kalman_filter_def)
  next
    case (Inr f1)
    note f1 = kalman_stage_first [OF Inr]
    then have ne: "f1 \<noteq> []" by auto
    show ?thesis
    proof (cases "kalman_stage q2 r2 f1")
      case (Inl e)
      with kalman_stage_error [OF Inl ne] Inr show ?thesis
        by (simp add: hierarchical_kalman_filter_def)
    next
      case out: (Inr out)
      from kalman_stage_first [OF out] f1 Inr out show ?thesis
        by (simp add: hierarchical_kalman_filter_def)
    qed
  qed
next
  show "0 \<le> q1 \<and> 0 < r1 \<and> 0 \<le> q2 \<and> 0 < r2 \<longrightarrow>
          (\<exists>out. hierarchical_kalman_filter signal q1 r1 q2 r2 = Inr out)"
  proof
    assume pos: "0 \<le> q1 \<and> 0 < r1 \<and> 0 \<le> q2 \<and> 0 < r2"
    from kalman_stage_total [OF assms, of q1 r1] pos
    obtain f1 where f1: "kalman_stage q1 r1 signal = Inr f1" by blast
    from kalman_stage_first [OF f1] have ne: "f1 \<noteq> []" by auto
    from kalman_stage_total [OF ne, of q2 r2] pos
    obtain out where "kalman_stage q2 r2 f1 = Inr out" by blast
    with f1 show "\<exists>out. hierarchical_kalman_filter signal q1 r1 q2 r2 = Inr out"
      by (simp add: hierarchical_kalman_filter_def)
  qed
qed

theorem first_sample_preserved_witness:
  "[3, 5] \<noteq> ([] :: real list) \<and> (0::real) \<le> 0 \<and> (0::real) < 2 \<and>
   (\<exists>out. hierarchical_kalman_filter [3, 5] 0 2 0 2 = Inr out \<and>
      length out = length [3, 5 :: real] \<and> out ! 0 = [3, 5] ! 0)"
  using first_sample_preserved [of "[3, 5]" 0 2 0 2]
  by auto

text \<open>
  The claim as stated, for any noise parameters, fails where the filter raises: with
  \<open>Q1 = 0\<close> and \<open>R1 = -1\<close> the first denominator is \<open>1 + 0 + (-1) = 0\<close> and there is no
  output.
\<close>

theorem first_sample_any_parameters_counterexample:
  "hierarchical_kalman_filter [1] 0 (- 1) 0 1 = Inl ZeroDivisionError \<and>
   \<not> (\<exists>out. hierarchical_kalman_filter [1] 0 (- 1) 0 1 = Inr out \<and> out ! 0 = [1] ! 0)"
  by (simp add: hierarchical_kalman_filter_def kalman_stage_def kalman_stage_trace_def
      kalman_update_def)

section \<open>Properties of the aggregation\<close>

subsection \<open>The counter and \<^verbatim>\<open>max\<close>\<close>

lemma counter_incr_keys:
  "map fst (counter_incr k d) = (if k \<in> set (map fst d) then map fst d else map fst d @ [k])"
  by (induction d) (force split: if_splits)+

lemma counter_incr_get:
  "counter_get (counter_incr k d) k' = counter_get d k' + (if k = k' then 1 else 0)"
  by (induction d) (auto simp: counter_get_def)

lemma Counter_snoc: "Counter (xs @ [x]) = counter_incr x (Counter xs)"
  by (simp add: Counter_def)

lemma Counter_keys_set: "set (map fst (Counter xs)) = set xs"
  by (induction xs rule: rev_induct) (auto simp: Counter_snoc counter_incr_keys, simp add: Counter_def)

lemma Counter_keys_distinct: "distinct (map fst (Counter xs))"
proof (induction xs rule: rev_induct)
  case Nil
  then show ?case by (simp add: Counter_def)
next
  case (snoc x xs)
  then show ?case by (simp add: Counter_snoc counter_incr_keys)
qed

lemma Counter_get: "counter_get (Counter xs) k = count_list xs k"
proof (induction xs rule: rev_induct)
  case Nil
  then show ?case by (simp add: Counter_def counter_get_def)
next
  case (snoc x xs)
  then show ?case by (simp add: Counter_snoc counter_incr_get)
qed

lemma first_occurrence_less: "a \<in> set xs \<Longrightarrow> first_occurrence xs a < length xs"
  unfolding first_occurrence_def
  by (induction xs) auto

lemma first_occurrence_append_in:
  "a \<in> set xs \<Longrightarrow> first_occurrence (xs @ ys) a = first_occurrence xs a"
  unfolding first_occurrence_def
  by (induction xs) auto

lemma first_occurrence_snoc_new:
  "x \<notin> set xs \<Longrightarrow> first_occurrence (xs @ [x]) x = length xs"
  unfolding first_occurrence_def
  by (induction xs) auto

lemma Counter_keys_sorted:
  "sorted_wrt (\<lambda>a b. first_occurrence xs a < first_occurrence xs b) (map fst (Counter xs))"
proof (induction xs rule: rev_induct)
  case Nil
  then show ?case by (simp add: Counter_def)
next
  case (snoc x xs)
  have keys: "set (map fst (Counter xs)) = set xs" by (rule Counter_keys_set)
  have old: "sorted_wrt (\<lambda>a b. first_occurrence (xs @ [x]) a < first_occurrence (xs @ [x]) b)
               (map fst (Counter xs))"
  proof (rule sorted_wrt_mono_rel [OF _ snoc.IH])
    fix a b
    assume "a \<in> set (map fst (Counter xs))" "b \<in> set (map fst (Counter xs))"
      "first_occurrence xs a < first_occurrence xs b"
    then show "first_occurrence (xs @ [x]) a < first_occurrence (xs @ [x]) b"
      using keys by (simp add: first_occurrence_append_in)
  qed
  show ?case
  proof (cases "x \<in> set xs")
    case True
    with old keys show ?thesis by (simp add: Counter_snoc counter_incr_keys)
  next
    case False
    have "\<forall>a \<in> set (map fst (Counter xs)).
            first_occurrence (xs @ [x]) a < first_occurrence (xs @ [x]) x"
      using keys False
      by (simp add: first_occurrence_append_in first_occurrence_snoc_new first_occurrence_less)
    with old keys False show ?thesis
      by (simp add: Counter_snoc counter_incr_keys sorted_wrt_append)
  qed
qed

lemma max_from_split:
  "\<exists>ys zs. best # xs = ys @ max_from f best xs # zs \<and>
     (\<forall>y \<in> set ys. f y < f (max_from f best xs)) \<and>
     (\<forall>z \<in> set zs. f z \<le> f (max_from f best xs))"
proof (induction xs arbitrary: best)
  case Nil
  have "[best] = [] @ max_from f best [] # [] \<and>
     (\<forall>y \<in> set []. f y < f (max_from f best [])) \<and>
     (\<forall>z \<in> set []. f z \<le> f (max_from f best []))" by simp
  then show ?case by blast
next
  case (Cons x xs)
  show ?case
  proof (cases "f best < f x")
    case True
    then have m: "max_from f best (x # xs) = max_from f x xs" by simp
    from Cons.IH [of x] obtain ys zs where
      s: "x # xs = ys @ max_from f x xs # zs"
         "\<forall>y \<in> set ys. f y < f (max_from f x xs)"
         "\<forall>z \<in> set zs. f z \<le> f (max_from f x xs)" by blast
    have "f x \<le> f (max_from f x xs)"
      using s by (cases ys) auto
    with True have lt: "f best < f (max_from f x xs)" by simp
    have "best # x # xs = (best # ys) @ max_from f x xs # zs" using s(1) by simp
    moreover have "\<forall>y \<in> set (best # ys). f y < f (max_from f x xs)" using s(2) lt by simp
    ultimately show ?thesis unfolding m using s(3) by blast
  next
    case False
    then have m: "max_from f best (x # xs) = max_from f best xs" by simp
    from Cons.IH [of best] obtain ys zs where
      s: "best # xs = ys @ max_from f best xs # zs"
         "\<forall>y \<in> set ys. f y < f (max_from f best xs)"
         "\<forall>z \<in> set zs. f z \<le> f (max_from f best xs)" by blast
    show ?thesis
    proof (cases ys)
      case Nil
      with s(1) have b: "max_from f best xs = best" "zs = xs" by auto
      have "best # x # xs = [] @ max_from f best xs # (x # zs)" using b by simp
      moreover have "\<forall>z \<in> set (x # zs). f z \<le> f (max_from f best xs)"
        using s(3) False b by auto
      ultimately show ?thesis unfolding m by (metis empty_iff list.set(1))
    next
      case (Cons y ys')
      with s(1) have b: "y = best" "xs = ys' @ max_from f best xs # zs" by auto
      from s(2) Cons b(1) have lt: "f best < f (max_from f best xs)" by auto
      with False have "f x < f (max_from f best xs)" by simp
      with s(2) Cons b(1) have "\<forall>y \<in> set (best # x # ys'). f y < f (max_from f best xs)" by auto
      moreover have "best # x # xs = (best # x # ys') @ max_from f best xs # zs"
        using b(2) by simp
      ultimately show ?thesis unfolding m using s(3) by blast
    qed
  qed
qed

subsection \<open>The summed probabilities\<close>

lemma class_labels_distinct: "distinct class_labels"
  by (simp add: class_labels_def CLASS_MAPPING_def)

lemma dict_add_fun:
  "distinct ks \<Longrightarrow> cls \<in> set ks \<Longrightarrow>
   dict_add cls prob (map (\<lambda>k. (k, F k)) ks) = Inr (map (\<lambda>k. (k, (F (cls := F cls + prob)) k)) ks)"
proof (induction ks)
  case Nil
  then show ?case by simp
next
  case (Cons k ks)
  show ?case
  proof (cases "cls = k")
    case True
    with Cons.prems have "cls \<notin> set ks" by simp
    then have "map (\<lambda>k. (k, (F (cls := F cls + prob)) k)) ks = map (\<lambda>k. (k, F k)) ks"
      by (intro map_cong) auto
    with True show ?thesis by simp
  next
    case False
    with Cons show ?thesis by simp
  qed
qed

lemma prob_of_Cons:
  "prob_of ((c, p) # d) k = (if c = k then p else prob_of d k)"
  by (auto simp: prob_of_def)

lemma prob_of_absent: "k \<notin> set (map fst d) \<Longrightarrow> prob_of d k = 0"
proof -
  assume "k \<notin> set (map fst d)"
  then have "map_of d k = None" by (simp add: map_of_eq_None_iff)
  then show ?thesis by (simp add: prob_of_def)
qed

lemma add_items_fun:
  "distinct ks \<Longrightarrow> distinct (map fst items) \<Longrightarrow> set (map fst items) \<subseteq> set ks \<Longrightarrow>
   add_items items (map (\<lambda>k. (k, F k)) ks) = Inr (map (\<lambda>k. (k, F k + prob_of items k)) ks)"
proof (induction items arbitrary: F)
  case Nil
  then show ?case by (simp add: prob_of_def)
next
  case (Cons it items)
  obtain c p where it: "it = (c, p)" by (cases it)
  from Cons.prems it have c: "c \<in> set ks" "c \<notin> set (map fst items)" by auto
  have step: "dict_add c p (map (\<lambda>k. (k, F k)) ks) = Inr (map (\<lambda>k. (k, (F (c := F c + p)) k)) ks)"
    using Cons.prems(1) c(1) by (rule dict_add_fun)
  have rest: "add_items items (map (\<lambda>k. (k, (F (c := F c + p)) k)) ks)
      = Inr (map (\<lambda>k. (k, (F (c := F c + p)) k + prob_of items k)) ks)"
    using Cons.prems by (intro Cons.IH) auto
  have "(F (c := F c + p)) k + prob_of items k = F k + prob_of (it # items) k" for k
    using prob_of_absent [OF c(2)] by (auto simp: it prob_of_Cons)
  with step rest show ?case by (simp add: it)
qed

lemma add_predictions_fun:
  "distinct ks \<Longrightarrow> \<forall>r \<in> set preds. distinct (map fst (probabilities r)) \<and>
      set (map fst (probabilities r)) \<subseteq> set ks \<Longrightarrow>
   add_predictions preds (map (\<lambda>k. (k, F k)) ks)
     = Inr (map (\<lambda>k. (k, F k + (\<Sum>r\<leftarrow>preds. prob_of (probabilities r) k))) ks)"
proof (induction preds arbitrary: F)
  case Nil
  then show ?case by simp
next
  case (Cons r preds)
  have step: "add_items (probabilities r) (map (\<lambda>k. (k, F k)) ks)
      = Inr (map (\<lambda>k. (k, F k + prob_of (probabilities r) k)) ks)"
    using Cons.prems by (intro add_items_fun) auto
  have rest: "add_predictions preds (map (\<lambda>k. (k, F k + prob_of (probabilities r) k)) ks)
      = Inr (map (\<lambda>k. (k, F k + prob_of (probabilities r) k
               + (\<Sum>r\<leftarrow>preds. prob_of (probabilities r) k))) ks)"
    using Cons.prems by (intro Cons.IH) auto
  from step rest show ?case by (simp add: add.assoc)
qed






subsection \<open>The returned summary\<close>

lemma Counter_nonempty: "xs \<noteq> [] \<Longrightarrow> map fst (Counter xs) \<noteq> []"
  using Counter_keys_set [of xs] by (metis set_empty)

lemma calculate_final_prediction_eq:
  assumes "predictions \<noteq> []" "\<forall>r \<in> set predictions. well_formed_result r"
  shows "\<exists>k ks fp. map fst (Counter (map prediction predictions)) = k # ks \<and>
    calculate_final_prediction predictions = Inr fp \<and>
    final_class fp = max_from (counter_get (Counter (map prediction predictions))) k ks \<and>
    distribution fp = Counter (map prediction predictions) \<and>
    average_probabilities fp =
       map (\<lambda>cls. (cls, (\<Sum>r\<leftarrow>predictions. prob_of (probabilities r) cls)
                / real (length predictions))) class_labels \<and>
    confidence fp =
       round2 (round_double (round_double
         (real (counter_get (Counter (map prediction predictions)) (final_class fp))
            / real (length predictions)) * 100))"
proof -
  from Counter_nonempty [of "map prediction predictions"] assms(1)
  obtain k ks where keys: "map fst (Counter (map prediction predictions)) = k # ks"
    by (cases "map fst (Counter (map prediction predictions))") auto
  have "add_predictions predictions (map (\<lambda>cls. (cls, (\<lambda>_. 0) cls)) class_labels)
      = Inr (map (\<lambda>cls. (cls, (\<lambda>_. 0) cls + (\<Sum>r\<leftarrow>predictions. prob_of (probabilities r) cls)))
           class_labels)"
    using class_labels_distinct assms(2)
    by (intro add_predictions_fun) (auto simp: well_formed_result_def)
  then have tot: "add_predictions predictions (map (\<lambda>cls. (cls, 0)) class_labels)
      = Inr (map (\<lambda>cls. (cls, \<Sum>r\<leftarrow>predictions. prob_of (probabilities r) cls)) class_labels)"
    by simp
  show ?thesis
    using keys assms(1) tot
    by (simp add: calculate_final_prediction_def Let_def py_max_def o_def)
qed

lemma replicate_5: "replicate 5 x = [x, x, x, x, x]"
  by (simp add: eval_nat_numeral)

lemma class_labels_eq:
  "class_labels = [''Normal Beat (N)'', ''Atrial Premature Beat (A)'',
     ''Ventricular Premature Beat (V)'', ''Left Bundle Branch Block Beat (L)'',
     ''Right Bundle Branch Block Beat (R)'']"
  by (simp add: class_labels_def CLASS_MAPPING_def)

lemma one_hot_result_simps:
  "one_hot_result n 0 = \<lparr>segment = n, prediction = ''Normal Beat (N)'',
     probabilities = zip class_labels [1, 0, 0, 0, 0]\<rparr>"
  "one_hot_result n 2 = \<lparr>segment = n, prediction = ''Ventricular Premature Beat (V)'',
     probabilities = zip class_labels [0, 0, 1, 0, 0]\<rparr>"
  "one_hot_result n 3 = \<lparr>segment = n, prediction = ''Left Bundle Branch Block Beat (L)'',
     probabilities = zip class_labels [0, 0, 0, 1, 0]\<rparr>"
  by (simp_all add: one_hot_result_def replicate_5 class_labels_eq eval_nat_numeral)


text \<open>
  C3. On an empty list of predictions \<^verbatim>\<open>calculate_final_prediction\<close> fails: \<^verbatim>\<open>max\<close> over the
  empty counter raises \<^verbatim>\<open>ValueError\<close>, the exception by which the code signals what the
  specification names \<open>EmptyAggregationError\<close>. No result is returned.
\<close>

theorem empty_aggregation_fails:
  "calculate_final_prediction [] = Inl ValueError"
  by (simp add: calculate_final_prediction_def Counter_def py_max_def)

text \<open>
  C5. For a non-empty list of well-formed per-segment results,
  \<^verbatim>\<open>calculate_final_prediction\<close> returns, and its final class is a predicted label whose
  number of occurrences is maximal; among the labels with that number of occurrences it
  is the one whose first occurrence in the input comes first.
\<close>

theorem final_label_first_most_frequent:
  assumes "predictions \<noteq> []" "\<forall>r \<in> set predictions. well_formed_result r"
  shows "\<exists>fp. calculate_final_prediction predictions = Inr fp \<and>
           final_class fp \<in> set (map prediction predictions) \<and>
           (\<forall>l. count_list (map prediction predictions) l
                \<le> count_list (map prediction predictions) (final_class fp)) \<and>
           (\<forall>l \<in> set (map prediction predictions).
              count_list (map prediction predictions) l
                = count_list (map prediction predictions) (final_class fp) \<longrightarrow>
              first_occurrence (map prediction predictions) (final_class fp)
                \<le> first_occurrence (map prediction predictions) l)"
proof -
  let ?ls = "map prediction predictions"
  let ?C = "Counter ?ls"
  from calculate_final_prediction_eq [OF assms]
  obtain k ks fp where keys: "map fst ?C = k # ks"
    and fp: "calculate_final_prediction predictions = Inr fp"
    and fc: "final_class fp = max_from (counter_get ?C) k ks"
    by (elim exE conjE) (rule that, assumption+)
  let ?m = "final_class fp"
  from max_from_split [of k ks "counter_get ?C"]
  obtain ys zs where
    split: "k # ks = ys @ ?m # zs" and
    before: "\<forall>y \<in> set ys. counter_get ?C y < counter_get ?C ?m" and
    after: "\<forall>z \<in> set zs. counter_get ?C z \<le> counter_get ?C ?m"
    unfolding fc by blast
  have "set (map fst ?C) = set (ys @ ?m # zs)" unfolding keys split ..
  then have keyset: "set ?ls = set ys \<union> {?m} \<union> set zs"
    unfolding Counter_keys_set by simp
  have mem: "?m \<in> set ?ls" using keyset by blast
  have le: "count_list ?ls l \<le> count_list ?ls ?m" for l
  proof (cases "l \<in> set ?ls")
    case True
    with keyset before after show ?thesis
      by (auto simp: Counter_get less_imp_le)
  next
    case False
    then show ?thesis by simp
  qed
  have first: "first_occurrence ?ls ?m \<le> first_occurrence ?ls l"
    if l: "l \<in> set ?ls" and eq: "count_list ?ls l = count_list ?ls ?m" for l
  proof -
    from before eq have "l \<notin> set ys" by (auto simp: Counter_get)
    with l keyset consider "l = ?m" | "l \<in> set zs" by blast
    then show ?thesis
    proof cases
      case 1
      then show ?thesis by simp
    next
      case 2
      from Counter_keys_sorted [of ?ls]
      have "sorted_wrt (\<lambda>a b. first_occurrence ?ls a < first_occurrence ?ls b) (ys @ ?m # zs)"
        unfolding keys split .
      with 2 show ?thesis by (auto simp: sorted_wrt_append)
    qed
  qed
  from fp mem le first show ?thesis by blast
qed

theorem final_label_first_most_frequent_witness:
  "\<exists>fp. calculate_final_prediction
           [one_hot_result 1 2, one_hot_result 2 0, one_hot_result 3 0, one_hot_result 4 2]
          = Inr fp \<and>
        final_class fp = ''Ventricular Premature Beat (V)''"
proof -
  let ?ps = "[one_hot_result 1 2, one_hot_result 2 0, one_hot_result 3 0, one_hot_result 4 2]"
  have ne: "?ps \<noteq> []" by simp
  have wf: "\<forall>r \<in> set ?ps. well_formed_result r"
    by (simp add: well_formed_result_def one_hot_result_simps class_labels_eq)
  have ls: "map prediction ?ps = [''Ventricular Premature Beat (V)'', ''Normal Beat (N)'',
      ''Normal Beat (N)'', ''Ventricular Premature Beat (V)'']"
    by (simp add: one_hot_result_simps)
  from final_label_first_most_frequent [OF ne wf]
  obtain fp where fp: "calculate_final_prediction ?ps = Inr fp"
    and mem: "final_class fp \<in> set (map prediction ?ps)"
    and first: "\<forall>l \<in> set (map prediction ?ps).
              count_list (map prediction ?ps) l
                = count_list (map prediction ?ps) (final_class fp) \<longrightarrow>
              first_occurrence (map prediction ?ps) (final_class fp)
                \<le> first_occurrence (map prediction ?ps) l"
    by (elim exE conjE) (rule that, assumption+)
  from mem first have "final_class fp = ''Ventricular Premature Beat (V)''"
    unfolding ls by (auto simp: first_occurrence_def)
  with fp show ?thesis by blast
qed


text \<open>
  C2, as the code has it. For a non-empty list of well-formed per-segment results, the
  distribution is the counter of the predicted labels: it has one entry for each label
  that was predicted at least once, with the number of its occurrences, and no entry for
  a label that was never predicted.
\<close>

theorem distribution_lists_observed_labels:
  assumes "predictions \<noteq> []" "\<forall>r \<in> set predictions. well_formed_result r"
  shows "\<exists>fp. calculate_final_prediction predictions = Inr fp \<and>
           distinct (map fst (distribution fp)) \<and>
           set (map fst (distribution fp)) = set (map prediction predictions) \<and>
           (\<forall>l. map_of (distribution fp) l =
              (if l \<in> set (map prediction predictions)
               then Some (count_list (map prediction predictions) l) else None))"
proof -
  let ?ls = "map prediction predictions"
  from calculate_final_prediction_eq [OF assms]
  obtain fp where fp: "calculate_final_prediction predictions = Inr fp"
    and d: "distribution fp = Counter ?ls"
    by (elim exE conjE) (rule that, assumption+)
  have "map_of (Counter ?ls) l = (if l \<in> set ?ls then Some (count_list ?ls l) else None)" for l
  proof (cases "l \<in> set ?ls")
    case True
    then have "l \<in> fst ` set (Counter ?ls)" using Counter_keys_set [of ?ls] by simp
    then obtain n where n: "map_of (Counter ?ls) l = Some n"
      by (metis domD dom_map_of_conv_image_fst)
    with Counter_get [of ?ls l] have "n = count_list ?ls l" by (simp add: counter_get_def)
    with n True show ?thesis by simp
  next
    case False
    then have "l \<notin> fst ` set (Counter ?ls)" using Counter_keys_set [of ?ls] by simp
    then have "map_of (Counter ?ls) l = None" by (simp add: map_of_eq_None_iff)
    with False show ?thesis by simp
  qed
  with fp d Counter_keys_distinct [of ?ls] Counter_keys_set [of ?ls] show ?thesis by auto
qed

theorem distribution_lists_observed_labels_witness:
  "\<exists>fp. calculate_final_prediction [one_hot_result 1 0, one_hot_result 2 3, one_hot_result 3 0]
          = Inr fp \<and>
        set (map fst (distribution fp))
          = {''Normal Beat (N)'', ''Left Bundle Branch Block Beat (L)''} \<and>
        map_of (distribution fp) ''Normal Beat (N)'' = Some 2 \<and>
        map_of (distribution fp) ''Atrial Premature Beat (A)'' = None"
proof -
  let ?ps = "[one_hot_result 1 0, one_hot_result 2 3, one_hot_result 3 0]"
  have ne: "?ps \<noteq> []" by simp
  have wf: "\<forall>r \<in> set ?ps. well_formed_result r"
    by (simp add: well_formed_result_def one_hot_result_simps class_labels_eq)
  have ls: "map prediction ?ps = [''Normal Beat (N)'', ''Left Bundle Branch Block Beat (L)'',
      ''Normal Beat (N)'']"
    by (simp add: one_hot_result_simps)
  from distribution_lists_observed_labels [OF ne wf] show ?thesis
    unfolding ls by (elim exE conjE, intro exI conjI) (assumption, auto)
qed

text \<open>
  With a single segment predicted as Normal Beat, the distribution has the one entry of
  that label; the four other labels have no entry.
\<close>

theorem distribution_zero_filled_counterexample:
  "calculate_final_prediction [one_hot_result 1 0] =
     Inr \<lparr>final_class = ''Normal Beat (N)'',
          confidence = 100,
          distribution = [(''Normal Beat (N)'', 1)],
          average_probabilities =
            [(''Normal Beat (N)'', 1), (''Atrial Premature Beat (A)'', 0),
             (''Ventricular Premature Beat (V)'', 0),
             (''Left Bundle Branch Block Beat (L)'', 0),
             (''Right Bundle Branch Block Beat (R)'', 0)]\<rparr> \<and>
   ''Atrial Premature Beat (A)'' \<in> set class_labels \<and>
   ''Atrial Premature Beat (A)'' \<notin> set (map fst [(''Normal Beat (N)'', 1 :: nat)])"
  by (simp add: calculate_final_prediction_def one_hot_result_simps class_labels_eq
      Counter_def py_max_def counter_get_def round2_def round_half_even_def
      round_double_1 round_double_100)



subsection \<open>The empty signal\<close>

text \<open>
  C4, as the code has it. On an empty signal \<^verbatim>\<open>hierarchical_kalman_filter\<close> fails:
  \<^verbatim>\<open>signal[0]\<close> raises \<^verbatim>\<open>IndexError\<close>. \<^verbatim>\<open>process_ecg_data\<close> catches the exception and
  returns the pair \<^verbatim>\<open>(None, None)\<close>, neither a denoised signal nor a plot, whatever the
  settings and the plotting do.
\<close>

theorem empty_signal_yields_none:
  "hierarchical_kalman_filter [] q1 r1 q2 r2 = Inl IndexError \<and>
   process_ecg_data settings render [] = Inr (None, None)"
  by (simp add: process_ecg_data_def hierarchical_kalman_filter_def kalman_stage_def
      kalman_stage_trace_def)

text \<open>
  The failure is not raised to the caller of \<^verbatim>\<open>process_ecg_data\<close>: the call returns.
\<close>

theorem empty_signal_error_not_raised_counterexample:
  "process_ecg_data default_settings (\<lambda>original denoised. Inr ''png'') []
     = Inr (None, None) \<and>
   \<not> isl (process_ecg_data default_settings (\<lambda>original denoised. Inr ''png'') [])"
  by (simp add: process_ecg_data_def hierarchical_kalman_filter_def kalman_stage_def
      kalman_stage_trace_def)

section \<open>Properties of the classifier and of the segment loop\<close>

subsection \<open>The model that \<^verbatim>\<open>predict_segment\<close> uses does not change during a run\<close>

lemma load_ecg_model_idem:
  "load_ecg_model env (snd (load_ecg_model env g)) = load_ecg_model env g"
  by (auto simp: load_ecg_model_def split: option.splits sum.splits)

lemma predict_segment_state:
  "snd (predict_segment env g seg) = snd (load_ecg_model env g)"
  by (auto simp: predict_segment_def split: prod.splits option.splits sum.splits)

lemma predict_segment_fst:
  "fst (predict_segment env g seg) =
     (case fst (load_ecg_model env g) of
        Inl e \<Rightarrow> default_prediction
      | Inr None \<Rightarrow> default_prediction
      | Inr (Some m) \<Rightarrow>
          (case m seg of
             Inl e \<Rightarrow> default_prediction
           | Inr out \<Rightarrow>
               (case argmax out of
                  Inl e \<Rightarrow> default_prediction
                | Inr c \<Rightarrow> (c, softmax out))))"
  by (auto simp: predict_segment_def split: prod.splits option.splits sum.splits)

lemma predict_segment_same_model:
  "fst (load_ecg_model env g) = fst (load_ecg_model env g0) \<Longrightarrow>
   fst (predict_segment env g seg) = fst (predict_segment env g0 seg)"
  by (simp add: predict_segment_fst)

lemma load_after_predict:
  "fst (load_ecg_model env (snd (predict_segment env g seg))) = fst (load_ecg_model env g)"
  by (simp add: predict_segment_state load_ecg_model_idem)

subsection \<open>The shape of a prediction and the appended entry\<close>

lemma argmax_from_bound:
  "best < i \<Longrightarrow> argmax_from best v i xs < i + length xs"
proof (induction xs arbitrary: best v i)
  case Nil
  then show ?case by simp
next
  case (Cons x xs)
  have "argmax_from i x (Suc i) xs < Suc i + length xs" by (rule Cons.IH) simp
  moreover have "argmax_from best v (Suc i) xs < Suc i + length xs"
    using Cons.prems by (intro Cons.IH) simp
  ultimately show ?case by simp
qed

lemma argmax_bound: "argmax out = Inr c \<Longrightarrow> c < length out"
  using argmax_from_bound [of 0 1]
  by (cases out) (auto simp: argmax_def)

lemma default_prediction_eq: "default_prediction = (0, [1, 0, 0, 0, 0])"
  by (simp add: default_prediction_def replicate_5)

lemma predict_segment_shape:
  assumes "models_have_five_logits env g"
  shows "fst (fst (predict_segment env g seg)) < 5 \<and> length (snd (fst (predict_segment env g seg))) = 5"
proof (cases "fst (load_ecg_model env g)")
  case (Inl e)
  then show ?thesis by (simp add: predict_segment_fst default_prediction_eq)
next
  case (Inr mo)
  show ?thesis
  proof (cases mo)
    case None
    with Inr show ?thesis by (simp add: predict_segment_fst default_prediction_eq)
  next
    case (Some m)
    with Inr assms have five: "five_logits m" by (simp add: models_have_five_logits_def)
    show ?thesis
    proof (cases "m seg")
      case (Inl e)
      with Inr Some show ?thesis by (simp add: predict_segment_fst default_prediction_eq)
    next
      case out: (Inr out)
      with five have len: "length out = 5" by (simp add: five_logits_def)
      show ?thesis
      proof (cases "argmax out")
        case (Inl e)
        with Inr Some out show ?thesis by (simp add: predict_segment_fst default_prediction_eq)
      next
        case c: (Inr c)
        from argmax_bound [OF c] len have "c < 5" by simp
        with Inr Some out c len show ?thesis by (simp add: predict_segment_fst softmax_def)
      qed
    qed
  qed
qed

lemma class_mapping_get_label: "c < 5 \<Longrightarrow> class_mapping_get c = Inr (class_labels ! c)"
proof -
  assume "c < 5"
  then consider "c = 0" | "c = 1" | "c = 2" | "c = 3" | "c = 4" by linarith
  then show ?thesis
    by cases (simp_all add: class_mapping_get_def CLASS_MAPPING_def class_labels_def)
qed

lemma probabilities_from_zip:
  "i + length probs \<le> 5 \<Longrightarrow> probabilities_from i probs = Inr (zip (drop i class_labels) probs)"
proof (induction probs arbitrary: i)
  case Nil
  then show ?case by simp
next
  case (Cons p probs)
  then have i: "i < 5" by simp
  have len: "length class_labels = 5" by (simp add: class_labels_eq)
  have "drop i class_labels = class_labels ! i # drop (Suc i) class_labels"
    using i len by (simp add: Cons_nth_drop_Suc)
  with Cons class_mapping_get_label [OF i] show ?case by simp
qed

lemma segment_result_eq:
  assumes "fst pp < 5" "length (snd pp) \<le> 5"
  shows "segment_result i pp =
     Inr \<lparr>segment = i div 300 + 1, prediction = class_labels ! fst pp,
          probabilities = zip class_labels (snd pp)\<rparr>"
  using class_mapping_get_label [OF assms(1)] probabilities_from_zip [of 0 "snd pp"] assms(2)
  by (simp add: segment_result_def)

subsection \<open>The results of the loop\<close>

lemma segment_loop_eq:
  assumes ok: "models_have_five_logits env g0"
  shows "fst (load_ecg_model env g) = fst (load_ecg_model env g0) \<Longrightarrow>
         \<forall>k \<in> set ks. 300 * k + 300 \<le> length xs \<Longrightarrow>
         fst (segment_loop env g xs (map (\<lambda>k. 300 * int k) ks))
           = Inr (map (window_result env g0 xs) ks)"
proof (induction ks arbitrary: g)
  case Nil
  then show ?case by simp
next
  case (Cons k ks)
  let ?seg = "take 300 (drop (nat (300 * int k)) xs)"
  have seg: "?seg = window xs k" by (simp add: window_def nat_mult_distrib)
  from Cons.prems(2) have "300 * k + 300 \<le> length xs" by simp
  then have "min (length xs - 300 * k) 300 = 300" by arith
  then have full: "length ?seg = 300" by (simp add: nat_mult_distrib)
  obtain pp g' where p: "predict_segment env g (window xs k) = (pp, g')"
    by (cases "predict_segment env g (window xs k)")
  have pp: "pp = fst (predict_segment env g0 (window xs k))"
    using p predict_segment_same_model [OF Cons.prems(1), of "window xs k"] by simp
  have g': "fst (load_ecg_model env g') = fst (load_ecg_model env g0)"
    using p load_after_predict [of env g "window xs k"] Cons.prems(1) by simp
  from predict_segment_shape [OF ok, of "window xs k"] pp
  have shape: "fst pp < 5" "length (snd pp) \<le> 5" by simp_all
  have r: "segment_result (300 * int k) pp = Inr (window_result env g0 xs k)"
    using segment_result_eq [OF shape, of "300 * int k"] pp
    by (simp add: window_result_def Let_def)
  from Cons.IH [OF g'] Cons.prems(2)
  have rest: "fst (segment_loop env g' xs (map (\<lambda>k. 300 * int k) ks))
      = Inr (map (window_result env g0 xs) ks)" by simp
  obtain res g'' where l: "segment_loop env g' xs (map (\<lambda>k. 300 * int k) ks) = (res, g'')"
    by (cases "segment_loop env g' xs (map (\<lambda>k. 300 * int k) ks)")
  with rest have res: "res = Inr (map (window_result env g0 xs) ks)" by simp
  show ?case
    using full p r l res unfolding seg [symmetric]
    by (simp add: Let_def)
qed

lemma py_range_eq:
  "0 < step \<Longrightarrow>
   py_range start stop step
     = map (\<lambda>k. start + step * int k) [0..<nat ((stop - start + step - 1) div step)]"
proof (induction start stop step rule: py_range.induct)
  case (1 start stop step)
  show ?case
  proof (cases "start < stop")
    case True
    let ?n = "nat ((stop - (start + step) + step - 1) div step)"
    have "(stop - start + step - 1) div step = (stop - start - 1) div step + 1"
      using "1.prems" by (metis add.commute add_diff_eq div_add_self1 less_irrefl)
    moreover have "0 \<le> (stop - start - 1) div step"
      using True "1.prems" by (simp add: pos_imp_zdiv_nonneg_iff)
    ultimately have n: "nat ((stop - start + step - 1) div step) = Suc ?n"
      by (simp add: nat_add_distrib algebra_simps)
    have "py_range start stop step = start # py_range (start + step) stop step"
      using True "1.prems" by (subst py_range.simps) simp
    also have "py_range (start + step) stop step
        = map (\<lambda>k. start + step + step * int k) [0..<?n]"
      using "1.IH" True "1.prems" by simp
    also have "start # map (\<lambda>k. start + step + step * int k) [0..<?n]
        = map (\<lambda>k. start + step * int k) [0..<Suc ?n]"
      by (simp add: upt_conv_Cons map_Suc_upt [symmetric] algebra_simps del: upt_Suc)
    finally show ?thesis using n by simp
  next
    case False
    then have "stop - start + step - 1 \<le> step - 1" by simp
    then have "(stop - start + step - 1) div step \<le> (step - 1) div step"
      using "1.prems" by (rule zdiv_mono1)
    then have "(stop - start + step - 1) div step \<le> 0"
      using "1.prems" by simp
    with False show ?thesis by (subst py_range.simps) simp
  qed
qed

lemma segment_starts_eq:
  "py_range 0 (int n - 300) 300 = map (\<lambda>k. 300 * int k) [0..<(n - 1) div 300]"
proof -
  have count: "nat ((int n - 300 - 0 + 300 - 1) div 300) = (n - 1) div 300"
  proof (cases "n = 0")
    case True
    then show ?thesis by simp
  next
    case False
    then have a: "int n - 300 - 0 + 300 - 1 = int (n - 1)" by simp
    have "int ((n - 1) div 300) = int (n - 1) div 300" by simp
    then have "nat (int (n - 1) div 300) = (n - 1) div 300" by (metis nat_int)
    then show ?thesis unfolding a .
  qed
  have pos: "(0::int) < 300" by simp
  have "py_range 0 (int n - 300) 300
      = map (\<lambda>k. 0 + 300 * int k) [0..<nat ((int n - 300 - 0 + 300 - 1) div 300)]"
    using pos by (rule py_range_eq)
  then have "py_range 0 (int n - 300) 300 = map (\<lambda>k. 0 + 300 * int k) [0..<(n - 1) div 300]"
    unfolding count .
  then show ?thesis by simp
qed

lemma make_predictions_eq:
  assumes "models_have_five_logits env g"
  shows "fst (make_predictions env g xs)
           = Inr (map (window_result env g xs) [0..<(length xs - 1) div 300])"
proof -
  have "\<forall>k \<in> set [0..<(length xs - 1) div 300]. 300 * k + 300 \<le> length xs"
  proof
    fix k
    assume "k \<in> set [0..<(length xs - 1) div 300]"
    then have "Suc k \<le> (length xs - 1) div 300" by simp
    then have "300 * Suc k \<le> 300 * ((length xs - 1) div 300)" by simp
    also have "\<dots> \<le> length xs - 1" by simp
    finally show "300 * k + 300 \<le> length xs" by simp
  qed
  with segment_loop_eq [OF assms refl, of "[0..<(length xs - 1) div 300]" xs]
  show ?thesis by (simp add: make_predictions_def segment_starts_eq)
qed


text \<open>
  C1. When every loaded model returns five logits, the segment loop returns one result
  for each value of \<^verbatim>\<open>range(0, len(denoised_data) - 300, 300)\<close>, that is
  \<open>(N - 1) div 300\<close> results for \<open>N\<close> samples. For a signal of 900 samples these are the
  two results of the windows 0 and 1, numbered 1 and 2: the third full window, the samples
  600 to 899, is never classified.
\<close>

theorem segment_loop_skips_last_full_window:
  assumes "models_have_five_logits env g"
  shows "\<exists>results. fst (make_predictions env g denoised) = Inr results \<and>
           length results = (length denoised - 1) div 300 \<and>
           (length denoised = 900 \<longrightarrow>
              results = [window_result env g denoised 0, window_result env g denoised 1] \<and>
              map segment results = [1, 2])"
proof -
  let ?rs = "map (window_result env g denoised) [0..<(length denoised - 1) div 300]"
  have eq: "fst (make_predictions env g denoised) = Inr ?rs"
    using assms by (rule make_predictions_eq)
  have two: "[0..<2] = [0, 1 :: nat]" by (simp add: upt_conv_Cons numeral_2_eq_2)
  have seg: "segment (window_result env g denoised k) = int k + 1" for k
    by (simp add: window_result_def Let_def)
  have nine: "length denoised = 900 \<longrightarrow>
          ?rs = [window_result env g denoised 0, window_result env g denoised 1] \<and>
          map segment ?rs = [1, 2]"
    by (simp add: two seg)
  have len: "length ?rs = (length denoised - 1) div 300" by simp
  show ?thesis by (rule exI [of _ ?rs]) (intro conjI eq len nine)
qed

theorem segment_loop_skips_last_full_window_witness:
  "\<exists>results.
     fst (make_predictions
            \<lparr>new_LSTM = Inl RuntimeError, model_file_exists = False,
             load_state_dict = (\<lambda>m. Inl RuntimeError)\<rparr>
            None (replicate 900 0)) = Inr results \<and>
     length results = 2 \<and> map segment results = [1, 2]"
proof -
  let ?env = "\<lparr>new_LSTM = Inl RuntimeError, model_file_exists = False,
             load_state_dict = (\<lambda>m. Inl RuntimeError)\<rparr>"
  have ok: "models_have_five_logits ?env None"
    by (simp add: models_have_five_logits_def load_ecg_model_def)
  from segment_loop_skips_last_full_window [OF ok, of "replicate 900 0"]
  show ?thesis by auto
qed

subsection \<open>Failure and success of the classifier on a segment\<close>















end
